theory Spec2Isabelle
  imports Complex_Main "HOL-Library.Word" "HOL-Library.Multiset"
begin

section \<open>The data model of matchtree.go\<close>

text \<open>
  The model follows the first (current) version of \<^verbatim>\<open>matchtree.go\<close>.

  \<^item> Go's \<^verbatim>\<open>int64\<close> pattern values and keys are only compared (\<open>==\<close>, \<open><\<close>, \<open><=\<close>),
    never added, so they are \<open>int\<close>.
  \<^item> Go's \<^verbatim>\<open>float64\<close> is the type parameter \<open>'f\<close>; the model uses only the
    operations \<open>+\<close>, \<open>-\<close>, \<open>abs\<close>, \<open><\<close> and \<open>\<le>\<close> on it, through sort constraints
    that carry no axioms, and the constant \<^verbatim>\<open>epsilon\<close> is the parameter \<open>eps\<close>.
    Every theorem below therefore holds for any interpretation of these
    operations, in particular for IEEE-754 doubles.
  \<^item> A rule's priority is a Go \<^verbatim>\<open>int\<close> (64 bits wide), a \<open>64 word\<close> read as a
    signed number: the comparator of \<^verbatim>\<open>extractValues\<close> subtracts priorities.
  \<^item> A value index is a length of the value table, an \<open>int\<close>.
  \<^item> A panic of the Go code is the result \<open>None\<close>; the state of the tree after a
    panic is not modelled.
\<close>

datatype MatchType = MatchNone | MatchString | MatchInteger | MatchIntegerInterval | MatchNumberInterval

record IntegerInterval =
  Min_int :: "int option"
  MinIsExcluded_int :: bool
  Max_int :: "int option"
  MaxIsExcluded_int :: bool

record 'f NumberInterval =
  Min_num :: "'f option"
  MinIsExcluded_num :: bool
  Max_num :: "'f option"
  MaxIsExcluded_num :: bool

record 'f MatchPattern =
  Type :: MatchType
  IsAny :: bool
  IsInverse :: bool
  Strings :: "string list"
  Integers :: "int list"
  IntegerIntervals :: "IntegerInterval list"
  NumberIntervals :: "'f NumberInterval list"
  currentString :: string
  currentInteger :: int
  currentIntegerInterval :: IntegerInterval
  currentNumberInterval :: "'f NumberInterval"

record ('f, 'v) MatchRule =
  Patterns :: "'f MatchPattern list"
  Value :: 'v
  Priority :: "64 word"

record 'f MatchKey =
  Type_key :: MatchType
  String :: string
  Integer :: int
  Number :: 'f

record matchResult =
  ValueIndex :: int
  Priority_res :: "64 word"

text \<open>
  Nodes are Go objects reached through pointers and updated in place, so the
  model keeps them in a heap: a list of nodes, a pointer being an index into it
  and \<^verbatim>\<open>newMatchNode\<close> appending a node. The four non-terminal node structs have
  the same four fields and differ in the type of the pattern value only; they
  share the record \<open>nodeFields\<close>. The Go maps \<^verbatim>\<open>children\<close> and
  \<^verbatim>\<open>inverseChildIndexes\<close> of the string and integer nodes are association
  lists read by their first entry for a key; the code never iterates over them.
\<close>

type_synonym addr = nat

record matchNodeWithRefCount =
  MatchNode :: addr
  MaxRefCount :: nat

record 'k nodeFields =
  children :: "('k \<times> addr) list"
  inverseChildren :: "matchNodeWithRefCount list"
  inverseChildIndexes :: "('k \<times> nat list) list"
  anyChild :: "addr option"

datatype 'f matchNode =
    matchNodeOfNone "matchResult list"
  | matchNodeOfString "string nodeFields"
  | matchNodeOfInteger "int nodeFields"
  | matchNodeOfIntegerInterval "IntegerInterval nodeFields"
  | matchNodeOfNumberInterval "'f NumberInterval nodeFields"

record ('f, 'v) MatchTree =
  types :: "MatchType list"
  "values" :: "'v list"
  root :: "addr option"
  heap :: "'f matchNode list"

datatype error =
    UnexpectedNumberOfMatchPatterns nat nat
  | UnexpectedNumberOfMatchKeys nat nat
  | UnexpectedMatchType MatchType MatchType

section \<open>Intervals\<close>

definition IntegerInterval_Equals :: "IntegerInterval \<Rightarrow> IntegerInterval \<Rightarrow> bool" where
  "IntegerInterval_Equals i other =
     (if \<not> ((Min_int i = None) = (Min_int other = None) \<and> (Max_int i = None) = (Max_int other = None))
      then False
      else if (case Min_int i of None \<Rightarrow> False
               | Some y \<Rightarrow> Some y \<noteq> Min_int other \<or> MinIsExcluded_int i \<noteq> MinIsExcluded_int other)
      then False
      else if (case Max_int i of None \<Rightarrow> False
               | Some y \<Rightarrow> Some y \<noteq> Max_int other \<or> MaxIsExcluded_int i \<noteq> MaxIsExcluded_int other)
      then False
      else True)"

definition IntegerInterval_Contains :: "IntegerInterval \<Rightarrow> int \<Rightarrow> bool" where
  "IntegerInterval_Contains i x =
     (if (case Min_int i of None \<Rightarrow> False
          | Some y \<Rightarrow> if MinIsExcluded_int i then x \<le> y else x < y)
      then False
      else if (case Max_int i of None \<Rightarrow> False
               | Some y \<Rightarrow> if MaxIsExcluded_int i then y \<le> x else y < x)
      then False
      else True)"

definition NumberInterval_Equals ::
  "'f::{plus,minus,abs,ord} \<Rightarrow> 'f NumberInterval \<Rightarrow> 'f NumberInterval \<Rightarrow> bool" where
  "NumberInterval_Equals eps i other =
     (if \<not> ((Min_num i = None) = (Min_num other = None) \<and> (Max_num i = None) = (Max_num other = None))
      then False
      else if (case (Min_num i, Min_num other) of
                 (Some y, Some z) \<Rightarrow> eps \<le> \<bar>y - z\<bar> \<or> MinIsExcluded_num i \<noteq> MinIsExcluded_num other
               | _ \<Rightarrow> False)
      then False
      else if (case (Max_num i, Max_num other) of
                 (Some y, Some z) \<Rightarrow> eps \<le> \<bar>y - z\<bar> \<or> MaxIsExcluded_num i \<noteq> MaxIsExcluded_num other
               | _ \<Rightarrow> False)
      then False
      else True)"

definition NumberInterval_Contains ::
  "'f::{plus,minus,abs,ord} \<Rightarrow> 'f NumberInterval \<Rightarrow> 'f \<Rightarrow> bool" where
  "NumberInterval_Contains eps i x =
     (if (case Min_num i of None \<Rightarrow> False
          | Some y \<Rightarrow> if MinIsExcluded_num i then x \<le> y + eps else x < y - eps)
      then False
      else if (case Max_num i of None \<Rightarrow> False
               | Some y \<Rightarrow> if MaxIsExcluded_num i then y - eps \<le> x else y + eps < x)
      then False
      else True)"

section \<open>Nodes\<close>

definition newFields :: "'k nodeFields" where
  "newFields = \<lparr>children = [], inverseChildren = [], inverseChildIndexes = [], anyChild = None\<rparr>"

fun newMatchNode :: "MatchType \<Rightarrow> 'f matchNode" where
  "newMatchNode MatchNone = matchNodeOfNone []"
| "newMatchNode MatchString = matchNodeOfString newFields"
| "newMatchNode MatchInteger = matchNodeOfInteger newFields"
| "newMatchNode MatchIntegerInterval = matchNodeOfIntegerInterval newFields"
| "newMatchNode MatchNumberInterval = matchNodeOfNumberInterval newFields"

text \<open>\<^verbatim>\<open>for _, childIndex := range indexes { refCounts[childIndex]++ }\<close>; an index
  outside \<open>refCounts\<close> panics.\<close>

fun incRefCounts :: "nat list \<Rightarrow> nat list \<Rightarrow> nat list option" where
  "incRefCounts refCounts [] = Some refCounts"
| "incRefCounts refCounts (childIndex # indexes) =
     (if childIndex < length refCounts
      then incRefCounts (refCounts[childIndex := refCounts ! childIndex + 1]) indexes
      else None)"

text \<open>The first loop of the inverse branch of \<^verbatim>\<open>GetOrInsertChild\<close>: for every value
  of the pattern, the index list of the first entry that equals it (none: \<^verbatim>\<open>continue\<close>,
  or the empty list a Go map returns) is counted into \<open>refCounts\<close>.\<close>

fun countRefs :: "('k \<Rightarrow> 'k \<Rightarrow> bool) \<Rightarrow> ('k \<times> nat list) list \<Rightarrow> 'k list \<Rightarrow> nat list \<Rightarrow> nat list option" where
  "countRefs equals indexes [] refCounts = Some refCounts"
| "countRefs equals indexes (v # vs) refCounts =
     (case find (\<lambda>x. equals (fst x) v) indexes of
        None \<Rightarrow> countRefs equals indexes vs refCounts
      | Some x \<Rightarrow>
          (case incRefCounts refCounts (snd x) of
             None \<Rightarrow> None
           | Some refCounts' \<Rightarrow> countRefs equals indexes vs refCounts'))"

text \<open>One round of the last loop of the inverse branch: \<open>newChildIndex\<close> is appended to
  the index list of the first entry that equals \<open>v\<close>, or a new entry is appended.\<close>

fun appendIndex :: "('k \<Rightarrow> 'k \<Rightarrow> bool) \<Rightarrow> ('k \<times> nat list) list \<Rightarrow> 'k \<Rightarrow> nat \<Rightarrow> ('k \<times> nat list) list" where
  "appendIndex equals [] v newChildIndex = [(v, [newChildIndex])]"
| "appendIndex equals (x # indexes) v newChildIndex =
     (if equals (fst x) v then (fst x, snd x @ [newChildIndex]) # indexes
      else x # appendIndex equals indexes v newChildIndex)"

fun addIndexes :: "('k \<Rightarrow> 'k \<Rightarrow> bool) \<Rightarrow> ('k \<times> nat list) list \<Rightarrow> 'k list \<Rightarrow> nat \<Rightarrow> ('k \<times> nat list) list" where
  "addIndexes equals indexes [] newChildIndex = indexes"
| "addIndexes equals indexes (v # vs) newChildIndex =
     addIndexes equals (appendIndex equals indexes v newChildIndex) vs newChildIndex"

text \<open>
  The body the four \<^verbatim>\<open>GetOrInsertChild\<close> methods share. \<open>equals\<close> is the equality of
  the node's pattern values (\<open>=\<close> for the keys of a Go map, \<^verbatim>\<open>Equals\<close> for intervals),
  \<open>vs\<close> the pattern's value list of the node's kind, \<open>cur\<close> its current value and
  \<open>new\<close> the address a new child would get. The result is the updated node, the
  child, and whether the child is new.
\<close>

definition getOrInsertChildIn ::
  "('k \<Rightarrow> 'k \<Rightarrow> bool) \<Rightarrow> 'k nodeFields \<Rightarrow> bool \<Rightarrow> bool \<Rightarrow> 'k list \<Rightarrow> 'k \<Rightarrow> addr
     \<Rightarrow> ('k nodeFields \<times> addr \<times> bool) option" where
  "getOrInsertChildIn equals n isAny isInverse vs cur new =
     (if isAny then
        (case anyChild n of
           Some child \<Rightarrow> Some (n, child, False)
         | None \<Rightarrow> Some (n\<lparr>anyChild := Some new\<rparr>, new, True))
      else if isInverse then
        (case countRefs equals (inverseChildIndexes n) vs (replicate (length (inverseChildren n)) 0) of
           None \<Rightarrow> None
         | Some refCounts \<Rightarrow>
             (let maxRefCount = length vs in
              case find (\<lambda>childIndex. refCounts ! childIndex = maxRefCount
                           \<and> MaxRefCount (inverseChildren n ! childIndex) = maxRefCount)
                        [0..<length refCounts] of
                Some childIndex \<Rightarrow> Some (n, MatchNode (inverseChildren n ! childIndex), False)
              | None \<Rightarrow>
                  Some (n\<lparr>inverseChildren := inverseChildren n @ [\<lparr>MatchNode = new, MaxRefCount = maxRefCount\<rparr>],
                          inverseChildIndexes :=
                            addIndexes equals (inverseChildIndexes n) vs (length (inverseChildren n))\<rparr>,
                        new, True)))
      else
        (case find (\<lambda>x. equals (fst x) cur) (children n) of
           Some x \<Rightarrow> Some (n, snd x, False)
         | None \<Rightarrow> Some (n\<lparr>children := children n @ [(cur, new)]\<rparr>, new, True)))"

text \<open>Writing the node back; a new child is allocated at the end of the heap.\<close>

definition storeChild ::
  "'f matchNode list \<Rightarrow> addr \<Rightarrow> MatchType \<Rightarrow> ('k nodeFields \<Rightarrow> 'f matchNode)
     \<Rightarrow> ('k nodeFields \<times> addr \<times> bool) \<Rightarrow> 'f matchNode list \<times> addr" where
  "storeChild h a newChildType mk r =
     (case r of (n', child, created) \<Rightarrow>
        (if created then (h[a := mk n'] @ [newMatchNode newChildType], child) else (h, child)))"

definition GetOrInsertChild ::
  "'f::{plus,minus,abs,ord} \<Rightarrow> 'f matchNode list \<Rightarrow> addr \<Rightarrow> 'f MatchPattern \<Rightarrow> MatchType
     \<Rightarrow> ('f matchNode list \<times> addr) option" where
  "GetOrInsertChild eps h a pattern newChildType =
     (if a < length h then
        (case h ! a of
           matchNodeOfNone rs \<Rightarrow> None
         | matchNodeOfString n \<Rightarrow>
             map_option (storeChild h a newChildType matchNodeOfString)
               (getOrInsertChildIn (=) n (IsAny pattern) (IsInverse pattern)
                  (Strings pattern) (currentString pattern) (length h))
         | matchNodeOfInteger n \<Rightarrow>
             map_option (storeChild h a newChildType matchNodeOfInteger)
               (getOrInsertChildIn (=) n (IsAny pattern) (IsInverse pattern)
                  (Integers pattern) (currentInteger pattern) (length h))
         | matchNodeOfIntegerInterval n \<Rightarrow>
             map_option (storeChild h a newChildType matchNodeOfIntegerInterval)
               (getOrInsertChildIn IntegerInterval_Equals n (IsAny pattern) (IsInverse pattern)
                  (IntegerIntervals pattern) (currentIntegerInterval pattern) (length h))
         | matchNodeOfNumberInterval n \<Rightarrow>
             map_option (storeChild h a newChildType matchNodeOfNumberInterval)
               (getOrInsertChildIn (NumberInterval_Equals eps) n (IsAny pattern) (IsInverse pattern)
                  (NumberIntervals pattern) (currentNumberInterval pattern) (length h)))
      else None)"

text \<open>
  The part the four \<^verbatim>\<open>FindChildren\<close> methods share. \<open>exact\<close> are the children found
  for the key among \<^verbatim>\<open>children\<close> and \<open>excluding\<close> the index lists of the entries of
  \<^verbatim>\<open>inverseChildIndexes\<close> that the key hits. The sequence the Go method yields is
  consumed to its end by \<^verbatim>\<open>Search\<close>, so it is a list.
\<close>

definition findChildrenIn :: "'k nodeFields \<Rightarrow> addr list \<Rightarrow> nat list list \<Rightarrow> addr list option" where
  "findChildrenIn n exact excluding =
     (case (if 1 \<le> length (inverseChildren n)
            then map_option
                   (\<lambda>refCounts. map (\<lambda>childIndex. MatchNode (inverseChildren n ! childIndex))
                      (filter (\<lambda>childIndex. \<not> 1 \<le> refCounts ! childIndex) [0..<length refCounts]))
                   (incRefCounts (replicate (length (inverseChildren n)) 0) (concat excluding))
            else Some []) of
        None \<Rightarrow> None
      | Some nonExcluding \<Rightarrow>
          Some (exact @ nonExcluding @ (case anyChild n of None \<Rightarrow> [] | Some child \<Rightarrow> [child])))"

definition mapLookup :: "('k \<times> 'a) list \<Rightarrow> 'k \<Rightarrow> 'a list" where
  "mapLookup m k = (case map_of m k of None \<Rightarrow> [] | Some x \<Rightarrow> [x])"

definition FindChildren ::
  "'f::{plus,minus,abs,ord} \<Rightarrow> 'f matchNode list \<Rightarrow> addr \<Rightarrow> 'f MatchKey \<Rightarrow> addr list option" where
  "FindChildren eps h a key =
     (if a < length h then
        (case h ! a of
           matchNodeOfNone rs \<Rightarrow> None
         | matchNodeOfString n \<Rightarrow>
             findChildrenIn n (mapLookup (children n) (String key))
               (mapLookup (inverseChildIndexes n) (String key))
         | matchNodeOfInteger n \<Rightarrow>
             findChildrenIn n (mapLookup (children n) (Integer key))
               (mapLookup (inverseChildIndexes n) (Integer key))
         | matchNodeOfIntegerInterval n \<Rightarrow>
             findChildrenIn n
               (map snd (filter (\<lambda>x. IntegerInterval_Contains (fst x) (Integer key)) (children n)))
               (map snd (filter (\<lambda>v. IntegerInterval_Contains (fst v) (Integer key)) (inverseChildIndexes n)))
         | matchNodeOfNumberInterval n \<Rightarrow>
             findChildrenIn n
               (map snd (filter (\<lambda>x. NumberInterval_Contains eps (fst x) (Number key)) (children n)))
               (map snd (filter (\<lambda>v. NumberInterval_Contains eps (fst v) (Number key)) (inverseChildIndexes n))))
      else None)"

definition AddResult :: "'f matchNode list \<Rightarrow> addr \<Rightarrow> matchResult \<Rightarrow> 'f matchNode list option" where
  "AddResult h a result =
     (if a < length h then
        (case h ! a of
           matchNodeOfNone rs \<Rightarrow> Some (h[a := matchNodeOfNone (rs @ [result])])
         | _ \<Rightarrow> None)
      else None)"

definition GetResults :: "'f matchNode list \<Rightarrow> addr \<Rightarrow> matchResult list option" where
  "GetResults h a =
     (if a < length h then
        (case h ! a of
           matchNodeOfNone rs \<Rightarrow> Some rs
         | _ \<Rightarrow> None)
      else None)"

section \<open>The tree\<close>

definition NewMatchTree :: "MatchType list \<Rightarrow> ('f, 'v) MatchTree option" where
  "NewMatchTree types1 =
     (if list_ex (\<lambda>type1. type1 = MatchNone) types1 then None
      else Some \<lparr>types = types1, values = [], root = None, heap = []\<rparr>)"

subsection \<open>AddRule\<close>

text \<open>The loop that compares the kinds position by position; the lengths are equal
  when it runs.\<close>

fun checkTypes :: "MatchType list \<Rightarrow> MatchType list \<Rightarrow> error option" where
  "checkTypes (actual # actuals) (expected # expecteds) =
     (if actual \<noteq> expected then Some (UnexpectedMatchType expected actual)
      else checkTypes actuals expecteds)"
| "checkTypes _ _ = None"

text \<open>\<^verbatim>\<open>cloneStrings\<close>, \<^verbatim>\<open>cloneIntegers\<close>, \<^verbatim>\<open>cloneIntegerIntervals\<close> and
  \<^verbatim>\<open>cloneNumberIntervals\<close>: the same loop, over \<^verbatim>\<open>slices.Contains\<close> for the first two
  and over \<^verbatim>\<open>slices.ContainsFunc(clone, v.Equals)\<close> for the intervals.\<close>

fun cloneLoop :: "('k \<Rightarrow> 'k \<Rightarrow> bool) \<Rightarrow> 'k list \<Rightarrow> 'k list \<Rightarrow> 'k list" where
  "cloneLoop equals clone [] = clone"
| "cloneLoop equals clone (v # s) =
     (if list_ex (equals v) clone then cloneLoop equals clone s
      else cloneLoop equals (clone @ [v]) s)"

definition cloneStrings :: "string list \<Rightarrow> string list" where
  "cloneStrings s = cloneLoop (=) [] s"

definition cloneIntegers :: "int list \<Rightarrow> int list" where
  "cloneIntegers s = cloneLoop (=) [] s"

definition cloneIntegerIntervals :: "IntegerInterval list \<Rightarrow> IntegerInterval list" where
  "cloneIntegerIntervals s = cloneLoop IntegerInterval_Equals [] s"

definition cloneNumberIntervals ::
  "'f::{plus,minus,abs,ord} \<Rightarrow> 'f NumberInterval list \<Rightarrow> 'f NumberInterval list" where
  "cloneNumberIntervals eps s = cloneLoop (NumberInterval_Equals eps) [] s"

definition clonePattern :: "'f::{plus,minus,abs,ord} \<Rightarrow> 'f MatchPattern \<Rightarrow> 'f MatchPattern" where
  "clonePattern eps pattern =
     pattern\<lparr>Strings := cloneStrings (Strings pattern),
             Integers := cloneIntegers (Integers pattern),
             IntegerIntervals := cloneIntegerIntervals (IntegerIntervals pattern),
             NumberIntervals := cloneNumberIntervals eps (NumberIntervals pattern)\<rparr>"

text \<open>
  \<^verbatim>\<open>doAddRule\<close> carries a closure \<^verbatim>\<open>getOrInsertNode\<close> from one round of its loop to
  the next: first the one that reads or creates the root, then the one that
  calls \<^verbatim>\<open>GetOrInsertChild\<close> on the last node with the last pattern.
\<close>

datatype 'f getOrInsertNode = OfRoot | OfChild addr "'f MatchPattern"

fun callGetOrInsertNode ::
  "'f::{plus,minus,abs,ord} \<Rightarrow> ('f, 'v) MatchTree \<Rightarrow> 'f getOrInsertNode \<Rightarrow> MatchType
     \<Rightarrow> (('f, 'v) MatchTree \<times> addr) option" where
  "callGetOrInsertNode eps t OfRoot newNodeType =
     (case root t of
        Some node \<Rightarrow> Some (t, node)
      | None \<Rightarrow> Some (t\<lparr>root := Some (length (heap t)), heap := heap t @ [newMatchNode newNodeType]\<rparr>,
                      length (heap t)))"
| "callGetOrInsertNode eps t (OfChild lastNode lastPattern) newNodeType =
     (case GetOrInsertChild eps (heap t) lastNode lastPattern newNodeType of
        None \<Rightarrow> None
      | Some (h, node) \<Rightarrow> Some (t\<lparr>heap := h\<rparr>, node))"

fun doAddRuleLoop ::
  "'f::{plus,minus,abs,ord} \<Rightarrow> ('f, 'v) MatchTree \<Rightarrow> 'f getOrInsertNode \<Rightarrow> 'f MatchPattern list
     \<Rightarrow> (('f, 'v) MatchTree \<times> 'f getOrInsertNode) option" where
  "doAddRuleLoop eps t getOrInsertNode [] = Some (t, getOrInsertNode)"
| "doAddRuleLoop eps t getOrInsertNode (pattern # patterns) =
     (case callGetOrInsertNode eps t getOrInsertNode (Type pattern) of
        None \<Rightarrow> None
      | Some (t', node) \<Rightarrow> doAddRuleLoop eps t' (OfChild node pattern) patterns)"

definition doAddRule ::
  "'f::{plus,minus,abs,ord} \<Rightarrow> ('f, 'v) MatchTree \<Rightarrow> 'f MatchPattern list \<Rightarrow> int \<Rightarrow> 64 word
     \<Rightarrow> ('f, 'v) MatchTree option" where
  "doAddRule eps t patterns valueIndex priority =
     (case doAddRuleLoop eps t OfRoot patterns of
        None \<Rightarrow> None
      | Some (t', getOrInsertNode) \<Rightarrow>
          (case callGetOrInsertNode eps t' getOrInsertNode MatchNone of
             None \<Rightarrow> None
           | Some (t'', node) \<Rightarrow>
               map_option (\<lambda>h. t''\<lparr>heap := h\<rparr>)
                 (AddResult (heap t'') node \<lparr>ValueIndex = valueIndex, Priority_res = priority\<rparr>)))"

text \<open>
  The values one round of \<^verbatim>\<open>walkPatterns\<close> puts into \<open>patterns[i]\<close> before it goes on
  to \<open>i + 1\<close>: the pattern itself when it is any or inverse, otherwise the pattern
  with each value of its kind as the current one, in turn. A pattern of kind
  \<^verbatim>\<open>MatchNone\<close> reaches \<^verbatim>\<open>panic("unreachable")\<close>.
\<close>

definition rounds :: "'f MatchPattern \<Rightarrow> 'f MatchPattern list option" where
  "rounds pattern =
     (if IsAny pattern then Some [pattern]
      else if IsInverse pattern then Some [pattern]
      else (case Type pattern of
              MatchString \<Rightarrow> Some (map (\<lambda>v. pattern\<lparr>currentString := v\<rparr>) (Strings pattern))
            | MatchInteger \<Rightarrow> Some (map (\<lambda>v. pattern\<lparr>currentInteger := v\<rparr>) (Integers pattern))
            | MatchIntegerInterval \<Rightarrow>
                Some (map (\<lambda>v. pattern\<lparr>currentIntegerInterval := v\<rparr>) (IntegerIntervals pattern))
            | MatchNumberInterval \<Rightarrow>
                Some (map (\<lambda>v. pattern\<lparr>currentNumberInterval := v\<rparr>) (NumberIntervals pattern))
            | MatchNone \<Rightarrow> None))"

text \<open>
  \<open>walkPatterns eps valueIndex priority t done todo\<close> is the call \<^verbatim>\<open>walkPatterns(i)\<close>
  with \<open>done\<close> the patterns before \<open>i\<close>, their current values set, and \<open>todo\<close> the
  patterns from \<open>i\<close> on; \<open>walkRounds\<close> is its \<^verbatim>\<open>for\<close> loop.
\<close>

fun walkPatterns ::
  "'f::{plus,minus,abs,ord} \<Rightarrow> int \<Rightarrow> 64 word \<Rightarrow> ('f, 'v) MatchTree \<Rightarrow> 'f MatchPattern list
     \<Rightarrow> 'f MatchPattern list \<Rightarrow> ('f, 'v) MatchTree option"
and walkRounds ::
  "'f::{plus,minus,abs,ord} \<Rightarrow> int \<Rightarrow> 64 word \<Rightarrow> ('f, 'v) MatchTree \<Rightarrow> 'f MatchPattern list
     \<Rightarrow> 'f MatchPattern list \<Rightarrow> 'f MatchPattern list \<Rightarrow> ('f, 'v) MatchTree option" where
  "walkPatterns eps valueIndex priority t done [] = doAddRule eps t done valueIndex priority"
| "walkPatterns eps valueIndex priority t done (pattern # todo) =
     (case rounds pattern of
        None \<Rightarrow> None
      | Some ps \<Rightarrow> walkRounds eps valueIndex priority t done ps todo)"
| "walkRounds eps valueIndex priority t done [] todo = Some t"
| "walkRounds eps valueIndex priority t done (p # ps) todo =
     (case walkPatterns eps valueIndex priority t (done @ [p]) todo of
        None \<Rightarrow> None
      | Some t' \<Rightarrow> walkRounds eps valueIndex priority t' done ps todo)"

text \<open>\<^verbatim>\<open>AddRule\<close> returns its error, \<open>None\<close> for \<^verbatim>\<open>nil\<close>, and the tree as it is after
  the call.\<close>

definition AddRule ::
  "'f::{plus,minus,abs,ord} \<Rightarrow> ('f, 'v) MatchTree \<Rightarrow> ('f, 'v) MatchRule
     \<Rightarrow> (error option \<times> ('f, 'v) MatchTree) option" where
  "AddRule eps t rule =
     (if length (Patterns rule) \<noteq> length (types t)
      then Some (Some (UnexpectedNumberOfMatchPatterns (length (types t)) (length (Patterns rule))), t)
      else (case checkTypes (map Type (Patterns rule)) (types t) of
              Some err \<Rightarrow> Some (Some err, t)
            | None \<Rightarrow>
                (let valueIndex = int (length (values t));
                     t1 = t\<lparr>values := values t @ [Value rule]\<rparr>;
                     patterns = map (clonePattern eps) (Patterns rule)
                 in map_option (\<lambda>t'. (None, t'))
                      (walkPatterns eps valueIndex (Priority rule) t1 [] patterns))))"

subsection \<open>Search\<close>

text \<open>The inner loop of \<^verbatim>\<open>Search\<close>: the children of every node of the working set, in
  the order of the set.\<close>

fun nextNodes :: "'f::{plus,minus,abs,ord} \<Rightarrow> 'f matchNode list \<Rightarrow> addr list \<Rightarrow> 'f MatchKey \<Rightarrow> addr list option" where
  "nextNodes eps h [] key = Some []"
| "nextNodes eps h (node # nodes) key =
     (case FindChildren eps h node key of
        None \<Rightarrow> None
      | Some found \<Rightarrow> map_option (\<lambda>rest. found @ rest) (nextNodes eps h nodes key))"

fun searchLoop :: "'f::{plus,minus,abs,ord} \<Rightarrow> 'f matchNode list \<Rightarrow> addr list \<Rightarrow> 'f MatchKey list \<Rightarrow> addr list option" where
  "searchLoop eps h nodes [] = Some nodes"
| "searchLoop eps h nodes (key # keys) =
     (case nextNodes eps h nodes key of
        None \<Rightarrow> None
      | Some nodes' \<Rightarrow> searchLoop eps h nodes' keys)"

text \<open>
  The comparator \<^verbatim>\<open>extractValues\<close> passes to \<^verbatim>\<open>slices.SortFunc\<close>. The difference of
  the priorities is a Go \<^verbatim>\<open>int\<close> and wraps around. Value indices are lengths of the
  value table; their difference does not leave the range of \<^verbatim>\<open>int\<close>.
\<close>

definition compareResults :: "matchResult \<Rightarrow> matchResult \<Rightarrow> int" where
  "compareResults x y =
     (let delta = sint (Priority_res y - Priority_res x)
      in if delta = 0 then ValueIndex x - ValueIndex y else delta)"

text \<open>
  \<^verbatim>\<open>slices.SortFunc\<close> belongs to Go's standard library. It calls \<^verbatim>\<open>pdqsortCmpFunc\<close>,
  which for a slice of at most 12 elements runs \<^verbatim>\<open>insertionSortCmpFunc\<close>:
  \<^verbatim>\<open>for i := a + 1; i < b; i++ { for j := i; j > a && cmp(data[j], data[j-1]) < 0; j-- { swap j, j-1 } }\<close>.
  \<open>sinkLeft\<close> is the inner loop on the reversed sorted prefix.
\<close>

fun sinkLeft :: "('a \<Rightarrow> 'a \<Rightarrow> int) \<Rightarrow> 'a \<Rightarrow> 'a list \<Rightarrow> 'a list" where
  "sinkLeft cmp x [] = [x]"
| "sinkLeft cmp x (y # ys) = (if cmp x y < 0 then y # sinkLeft cmp x ys else x # y # ys)"

fun insertionSortCmpFunc :: "('a \<Rightarrow> 'a \<Rightarrow> int) \<Rightarrow> 'a list \<Rightarrow> 'a list \<Rightarrow> 'a list" where
  "insertionSortCmpFunc cmp sortedRev [] = rev sortedRev"
| "insertionSortCmpFunc cmp sortedRev (x # rest) = insertionSortCmpFunc cmp (sinkLeft cmp x sortedRev) rest"

text \<open>
  A longer slice is sorted by the pattern-defeating quicksort of the library,
  which is not part of this repository. The model fixes of it only that it
  moves the elements of the slice and neither adds nor drops one; in which
  order it leaves them is not specified, so nothing is proved here of the
  order of more than 12 results.
\<close>

definition pdqsortLong :: "('a \<Rightarrow> 'a \<Rightarrow> int) \<Rightarrow> 'a list \<Rightarrow> 'a list" where
  [code del]: "pdqsortLong = (SOME sort. \<forall>cmp data. mset (sort cmp data) = mset data)"

definition SortFunc :: "('a \<Rightarrow> 'a \<Rightarrow> int) \<Rightarrow> 'a list \<Rightarrow> 'a list" where
  "SortFunc cmp data =
     (if length data \<le> 12 then insertionSortCmpFunc cmp [] data else pdqsortLong cmp data)"

text \<open>The loop that drops a result whose value index is the one kept last.\<close>

fun dropRepeated :: "int \<Rightarrow> matchResult list \<Rightarrow> matchResult list" where
  "dropRepeated lastValueIndex [] = []"
| "dropRepeated lastValueIndex (result # results) =
     (if ValueIndex result = lastValueIndex then dropRepeated lastValueIndex results
      else result # dropRepeated (ValueIndex result) results)"

text \<open>\<^verbatim>\<open>t.values[i]\<close>; an index outside the table panics.\<close>

definition valueAt :: "('f, 'v) MatchTree \<Rightarrow> int \<Rightarrow> 'v option" where
  "valueAt t i = (if 0 \<le> i \<and> i < int (length (values t)) then Some (values t ! nat i) else None)"

definition extractValues :: "('f, 'v) MatchTree \<Rightarrow> addr list \<Rightarrow> 'v list option" where
  "extractValues t nodes =
     (case those (map (GetResults (heap t)) nodes) of
        None \<Rightarrow> None
      | Some resultss \<Rightarrow>
          (let n = sum_list (map length resultss) in
           if n = 1 then
             (case resultss of
                [] \<Rightarrow> None
              | results0 # _ \<Rightarrow>
                  (case results0 of
                     [] \<Rightarrow> None
                   | result # _ \<Rightarrow> map_option (\<lambda>v. [v]) (valueAt t (ValueIndex result))))
           else
             those (map (\<lambda>result. valueAt t (ValueIndex result))
                      (dropRepeated (- 1) (SortFunc compareResults (concat resultss))))))"

text \<open>\<^verbatim>\<open>Search\<close> reads the tree and writes to nothing but its own slices; it returns
  the error or the values.\<close>

definition Search ::
  "'f::{plus,minus,abs,ord} \<Rightarrow> ('f, 'v) MatchTree \<Rightarrow> 'f MatchKey list \<Rightarrow> (error + 'v list) option" where
  "Search eps t keys =
     (if length keys \<noteq> length (types t)
      then Some (Inl (UnexpectedNumberOfMatchKeys (length (types t)) (length keys)))
      else (case checkTypes (map Type_key keys) (types t) of
              Some err \<Rightarrow> Some (Inl err)
            | None \<Rightarrow>
                (case searchLoop eps (heap t) (case root t of None \<Rightarrow> [] | Some node \<Rightarrow> [node]) keys of
                   None \<Rightarrow> None
                 | Some nodes \<Rightarrow>
                     if length nodes = 0 then Some (Inr [])
                     else map_option Inr (extractValues t nodes))))"

section \<open>Notions the properties are stated with\<close>

text \<open>The shape of a pattern or key list disagrees with the kinds of the tree.\<close>

definition shapeMismatch :: "MatchType list \<Rightarrow> MatchType list \<Rightarrow> bool" where
  "shapeMismatch actual expected \<longleftrightarrow>
     length actual \<noteq> length expected \<or> (\<exists>i < length expected. actual ! i \<noteq> expected ! i)"

text \<open>A sequence of calls of \<^verbatim>\<open>AddRule\<close> that all return \<^verbatim>\<open>nil\<close>, and the tree
  \<^verbatim>\<open>NewMatchTree\<close> and such a sequence build.\<close>

fun AddRules ::
  "'f::{plus,minus,abs,ord} \<Rightarrow> ('f, 'v) MatchTree \<Rightarrow> ('f, 'v) MatchRule list \<Rightarrow> ('f, 'v) MatchTree option" where
  "AddRules eps t [] = Some t"
| "AddRules eps t (rule # rules) =
     (case AddRule eps t rule of
        Some (None, t') \<Rightarrow> AddRules eps t' rules
      | _ \<Rightarrow> None)"

definition buildTree ::
  "'f::{plus,minus,abs,ord} \<Rightarrow> MatchType list \<Rightarrow> ('f, 'v) MatchRule list \<Rightarrow> ('f, 'v) MatchTree option" where
  "buildTree eps types1 rules = (case NewMatchTree types1 of None \<Rightarrow> None | Some t \<Rightarrow> AddRules eps t rules)"

definition searchIn ::
  "'f::{plus,minus,abs,ord} \<Rightarrow> ('f, 'v) MatchTree option \<Rightarrow> 'f MatchKey list \<Rightarrow> (error + 'v list) option" where
  "searchIn eps built keys = (case built of None \<Rightarrow> None | Some t \<Rightarrow> Search eps t keys)"

text \<open>The trees a program can hold: made by \<^verbatim>\<open>NewMatchTree\<close> and passed through calls
  of \<^verbatim>\<open>AddRule\<close> that returned, with an error or without. \<^verbatim>\<open>Search\<close> changes
  nothing.\<close>

inductive reachable :: "'f::{plus,minus,abs,ord} \<Rightarrow> ('f, 'v) MatchTree \<Rightarrow> bool" for eps :: 'f where
  new: "NewMatchTree types1 = Some t \<Longrightarrow> reachable eps t"
| add: "reachable eps t \<Longrightarrow> AddRule eps t rule = Some (err, t') \<Longrightarrow> reachable eps t'"

subsection \<open>Values for the examples\<close>

text \<open>The zero values of the Go structs. The examples use no number interval and
  take \<open>int\<close> for \<open>'f\<close>.\<close>

definition IntegerInterval0 :: IntegerInterval where
  "IntegerInterval0 = \<lparr>Min_int = None, MinIsExcluded_int = False, Max_int = None, MaxIsExcluded_int = False\<rparr>"

definition NumberInterval0 :: "int NumberInterval" where
  "NumberInterval0 = \<lparr>Min_num = None, MinIsExcluded_num = False, Max_num = None, MaxIsExcluded_num = False\<rparr>"

definition MatchPattern0 :: "MatchType \<Rightarrow> int MatchPattern" where
  "MatchPattern0 type1 =
     \<lparr>Type = type1, IsAny = False, IsInverse = False, Strings = [], Integers = [],
      IntegerIntervals = [], NumberIntervals = [], currentString = [], currentInteger = 0,
      currentIntegerInterval = IntegerInterval0, currentNumberInterval = NumberInterval0\<rparr>"

definition stringKey :: "string \<Rightarrow> int MatchKey" where
  "stringKey s = \<lparr>Type_key = MatchString, String = s, Integer = 0, Number = 0\<rparr>"

definition integerKey :: "int \<Rightarrow> int MatchKey" where
  "integerKey i = \<lparr>Type_key = MatchInteger, String = [], Integer = i, Number = 0\<rparr>"

definition anyString :: "int MatchPattern" where
  "anyString = (MatchPattern0 MatchString)\<lparr>IsAny := True\<rparr>"

definition ruleOf :: "int MatchPattern list \<Rightarrow> string \<Rightarrow> 64 word \<Rightarrow> (int, string) MatchRule" where
  "ruleOf patterns v priority = \<lparr>Patterns = patterns, Value = v, Priority = priority\<rparr>"

text \<open>Two rules that match every string, the first of the greatest priority an
  \<^verbatim>\<open>int\<close> holds, the second of priority \<open>-2\<close>.\<close>

definition rulesMaxAndMinus2 :: "(int, string) MatchRule list" where
  "rulesMaxAndMinus2 = [ruleOf [anyString] ''A'' 9223372036854775807, ruleOf [anyString] ''B'' (- 2)]"

text \<open>The rule of the cartesian example: strings \<open>a\<close>, \<open>b\<close> and integers \<open>1\<close>, \<open>2\<close>.\<close>

definition ruleAB12 :: "(int, string) MatchRule" where
  "ruleAB12 = ruleOf [(MatchPattern0 MatchString)\<lparr>Strings := [''a'', ''b'']\<rparr>,
                      (MatchPattern0 MatchInteger)\<lparr>Integers := [1, 2]\<rparr>] ''V'' 0"

definition emptyStringInteger :: "(int, string) MatchTree" where
  "emptyStringInteger = \<lparr>types = [MatchString, MatchInteger], values = [], root = None, heap = []\<rparr>"


subsection \<open>Paths of a rule\<close>

text \<open>One call of \<^verbatim>\<open>doAddRule\<close> for each pattern list of \<open>paths\<close>, in their order.\<close>

fun addPaths ::
  "'f::{plus,minus,abs,ord} \<Rightarrow> int \<Rightarrow> 64 word \<Rightarrow> ('f, 'v) MatchTree \<Rightarrow> 'f MatchPattern list list
     \<Rightarrow> ('f, 'v) MatchTree option" where
  "addPaths eps valueIndex priority t [] = Some t"
| "addPaths eps valueIndex priority t (path # paths) =
     (case doAddRule eps t path valueIndex priority of
        None \<Rightarrow> None
      | Some t' \<Rightarrow> addPaths eps valueIndex priority t' paths)"

text \<open>A pattern with no flag and no value.\<close>

definition emptyPattern :: "'f MatchPattern \<Rightarrow> bool" where
  "emptyPattern pattern \<longleftrightarrow>
     \<not> IsAny pattern \<and> \<not> IsInverse pattern \<and> Strings pattern = [] \<and> Integers pattern = []
     \<and> IntegerIntervals pattern = [] \<and> NumberIntervals pattern = []"

subsection \<open>Well-formed trees\<close>

text \<open>The children a node points to, and whether the reverse index of its inverse
  groups names existing groups only.\<close>

definition linksIn :: "'k nodeFields \<Rightarrow> addr list" where
  "linksIn n = map snd (children n) @ map MatchNode (inverseChildren n)
                 @ (case anyChild n of None \<Rightarrow> [] | Some child \<Rightarrow> [child])"

definition indexesInRange :: "'k nodeFields \<Rightarrow> bool" where
  "indexesInRange n \<longleftrightarrow>
     (\<forall>x \<in> set (inverseChildIndexes n). \<forall>j \<in> set (snd x). j < length (inverseChildren n))"

fun links :: "'f matchNode \<Rightarrow> addr list" where
  "links (matchNodeOfNone rs) = []"
| "links (matchNodeOfString n) = linksIn n"
| "links (matchNodeOfInteger n) = linksIn n"
| "links (matchNodeOfIntegerInterval n) = linksIn n"
| "links (matchNodeOfNumberInterval n) = linksIn n"

fun inRange :: "'f matchNode \<Rightarrow> bool" where
  "inRange (matchNodeOfNone rs) = True"
| "inRange (matchNodeOfString n) = indexesInRange n"
| "inRange (matchNodeOfInteger n) = indexesInRange n"
| "inRange (matchNodeOfIntegerInterval n) = indexesInRange n"
| "inRange (matchNodeOfNumberInterval n) = indexesInRange n"

fun isLeaf :: "'f matchNode \<Rightarrow> bool" where
  "isLeaf (matchNodeOfNone rs) = True"
| "isLeaf _ = False"

text \<open>
  \<open>d\<close> gives every node its depth. In a well-formed heap for \<open>N\<close> kinds the nodes
  at depth \<open>N\<close> are the terminal ones, the children of a node are one level
  below it, and every reverse index is in range.
\<close>

definition wellFormedHeap :: "nat \<Rightarrow> (addr \<Rightarrow> nat) \<Rightarrow> 'f matchNode list \<Rightarrow> bool" where
  "wellFormedHeap N d h \<longleftrightarrow>
     (\<forall>a < length h. d a \<le> N \<and> (isLeaf (h ! a) \<longleftrightarrow> d a = N) \<and> inRange (h ! a)
        \<and> (\<forall>c \<in> set (links (h ! a)). c < length h \<and> d c = Suc (d a)))"

text \<open>Every terminal node holds a result, and every result a value index inside
  a table of \<open>V\<close> values.\<close>

definition resultsValid :: "nat \<Rightarrow> 'f matchNode list \<Rightarrow> bool" where
  "resultsValid V h \<longleftrightarrow>
     (\<forall>a < length h. \<forall>rs. h ! a = matchNodeOfNone rs \<longrightarrow>
        rs \<noteq> [] \<and> (\<forall>r \<in> set rs. 0 \<le> ValueIndex r \<and> ValueIndex r < int V))"

definition wellFormed :: "('f, 'v) MatchTree \<Rightarrow> bool" where
  "wellFormed t \<longleftrightarrow>
     MatchNone \<notin> set (types t)
     \<and> (\<exists>d. wellFormedHeap (length (types t)) d (heap t)
            \<and> (\<forall>r. root t = Some r \<longrightarrow> r < length (heap t) \<and> d r = 0))
     \<and> resultsValid (length (values t)) (heap t)"

text \<open>
  From \<open>h\<close> to \<open>h'\<close> nodes were added and the result \<open>res\<close> was appended to terminal
  nodes, and nothing else happened to a terminal node.
\<close>

definition grows :: "matchResult \<Rightarrow> 'f matchNode list \<Rightarrow> 'f matchNode list \<Rightarrow> bool" where
  "grows res h h' \<longleftrightarrow>
     length h \<le> length h'
     \<and> (\<forall>a < length h. isLeaf (h' ! a) = isLeaf (h ! a))
     \<and> (\<forall>a < length h. \<forall>rs. h ! a = matchNodeOfNone rs \<longrightarrow> (\<exists>k. h' ! a = matchNodeOfNone (rs @ replicate k res)))
     \<and> (\<forall>a rs. length h \<le> a \<and> a < length h' \<and> h' ! a = matchNodeOfNone rs \<longrightarrow> (\<exists>k. rs = replicate k res))"

subsection \<open>The reverse index of the inverse groups\<close>

text \<open>The index list the reverse index holds for \<open>v\<close>: that of the first entry that
  equals \<open>v\<close>, or none.\<close>

definition lookupIndexes :: "('k \<Rightarrow> 'k \<Rightarrow> bool) \<Rightarrow> ('k \<times> nat list) list \<Rightarrow> 'k \<Rightarrow> nat list" where
  "lookupIndexes equals indexes v =
     (case find (\<lambda>x. equals (fst x) v) indexes of None \<Rightarrow> [] | Some x \<Rightarrow> snd x)"

text \<open>How often the reverse index lists group \<open>j\<close> under the values \<open>vs\<close>.\<close>

definition refCount :: "('k \<Rightarrow> 'k \<Rightarrow> bool) \<Rightarrow> ('k \<times> nat list) list \<Rightarrow> 'k list \<Rightarrow> nat \<Rightarrow> nat" where
  "refCount equals indexes vs j = count_list (concat (map (lookupIndexes equals indexes) vs)) j"

text \<open>
  From \<open>h\<close> to \<open>h'\<close> at most the node \<open>node\<close> was added, empty if it is terminal,
  no terminal node was changed, and none came to be out of another node.
\<close>

definition keeps :: "'f matchNode list \<Rightarrow> 'f matchNode list \<Rightarrow> addr \<Rightarrow> bool" where
  "keeps h h' node \<longleftrightarrow>
     length h \<le> length h'
     \<and> (\<forall>b < length h. if isLeaf (h ! b) then h' ! b = h ! b else \<not> isLeaf (h' ! b))
     \<and> (\<forall>b. length h \<le> b \<and> b < length h' \<longrightarrow>
           b = node \<and> (isLeaf (h' ! b) \<longrightarrow> h' ! b = matchNodeOfNone []))"

text \<open>The tree \<^verbatim>\<open>AddRule\<close> makes of the empty tree over a string and an integer and
  the rule of the cartesian example.\<close>

definition treeAB12 :: "(int, string) MatchTree" where
  "treeAB12 =
     \<lparr>types = [MatchString, MatchInteger], values = [''V''], root = Some 0,
      heap =
        [matchNodeOfString
           \<lparr>children = [(''a'', 1), (''b'', 4)], inverseChildren = [], inverseChildIndexes = [], anyChild = None\<rparr>,
         matchNodeOfInteger
           \<lparr>children = [(1, 2), (2, 3)], inverseChildren = [], inverseChildIndexes = [], anyChild = None\<rparr>,
         matchNodeOfNone [\<lparr>ValueIndex = 0, Priority_res = 0\<rparr>],
         matchNodeOfNone [\<lparr>ValueIndex = 0, Priority_res = 0\<rparr>],
         matchNodeOfInteger
           \<lparr>children = [(1, 5), (2, 6)], inverseChildren = [], inverseChildIndexes = [], anyChild = None\<rparr>,
         matchNodeOfNone [\<lparr>ValueIndex = 0, Priority_res = 0\<rparr>],
         matchNodeOfNone [\<lparr>ValueIndex = 0, Priority_res = 0\<rparr>]]\<rparr>"

subsection \<open>Reuse of inverse groups\<close>

text \<open>The inverse groups of a node, and the index lists the reverse index of a node
  holds for the values of the node's kind in a pattern.\<close>

fun groups :: "'f matchNode \<Rightarrow> matchNodeWithRefCount list" where
  "groups (matchNodeOfNone rs) = []"
| "groups (matchNodeOfString n) = inverseChildren n"
| "groups (matchNodeOfInteger n) = inverseChildren n"
| "groups (matchNodeOfIntegerInterval n) = inverseChildren n"
| "groups (matchNodeOfNumberInterval n) = inverseChildren n"

fun lookups :: "'f::{plus,minus,abs,ord} \<Rightarrow> 'f matchNode \<Rightarrow> 'f MatchPattern \<Rightarrow> nat list list" where
  "lookups eps (matchNodeOfNone rs) p = []"
| "lookups eps (matchNodeOfString n) p = map (lookupIndexes (=) (inverseChildIndexes n)) (Strings p)"
| "lookups eps (matchNodeOfInteger n) p = map (lookupIndexes (=) (inverseChildIndexes n)) (Integers p)"
| "lookups eps (matchNodeOfIntegerInterval n) p =
     map (lookupIndexes IntegerInterval_Equals (inverseChildIndexes n)) (IntegerIntervals p)"
| "lookups eps (matchNodeOfNumberInterval n) p =
     map (lookupIndexes (NumberInterval_Equals eps) (inverseChildIndexes n)) (NumberIntervals p)"

text \<open>
  The first group that the index lists \<open>ls\<close>, one for each value of an exclusion
  set, name as often as there are values, and whose recorded size is that
  number too.
\<close>

definition firstReusable :: "matchNodeWithRefCount list \<Rightarrow> nat list list \<Rightarrow> nat option" where
  "firstReusable gs ls =
     find (\<lambda>j. count_list (concat ls) j = length ls \<and> MaxRefCount (gs ! j) = length ls) [0..<length gs]"

text \<open>What \<^verbatim>\<open>AddRule\<close> does to a heap, step by step: a call of \<^verbatim>\<open>GetOrInsertChild\<close>,
  a call of \<^verbatim>\<open>AddResult\<close>, a new node.\<close>

inductive later :: "'f::{plus,minus,abs,ord} \<Rightarrow> 'f matchNode list \<Rightarrow> 'f matchNode list \<Rightarrow> bool"
  for eps :: 'f and h :: "'f matchNode list" where
  now: "later eps h h"
| child: "later eps h h1 \<Longrightarrow> GetOrInsertChild eps h1 b q ty = Some (h2, c) \<Longrightarrow> later eps h h2"
| result: "later eps h h1 \<Longrightarrow> AddResult h1 b res = Some h2 \<Longrightarrow> later eps h h2"
| node: "later eps h h1 \<Longrightarrow> later eps h (h1 @ [newMatchNode ty])"

text \<open>Two patterns exclude the same values: their value lists agree up to order.\<close>

definition sameExclusions :: "'f MatchPattern \<Rightarrow> 'f MatchPattern \<Rightarrow> bool" where
  "sameExclusions p q \<longleftrightarrow>
     mset (Strings p) = mset (Strings q) \<and> mset (Integers p) = mset (Integers q)
     \<and> mset (IntegerIntervals p) = mset (IntegerIntervals q)"

definition exactKind :: "'f matchNode \<Rightarrow> bool" where
  "exactKind node \<longleftrightarrow>
     (case node of matchNodeOfString n \<Rightarrow> True | matchNodeOfInteger n \<Rightarrow> True
      | matchNodeOfIntegerInterval n \<Rightarrow> True | _ \<Rightarrow> False)"

text \<open>The value lists of a pattern hold no two equal values, as after the cloning
  of \<^verbatim>\<open>AddRule\<close>.\<close>

definition deduplicated :: "'f MatchPattern \<Rightarrow> bool" where
  "deduplicated p \<longleftrightarrow>
     sorted_wrt (\<lambda>x y. \<not> y = x) (Strings p) \<and> sorted_wrt (\<lambda>x y. \<not> y = x) (Integers p)
     \<and> sorted_wrt (\<lambda>x y. \<not> IntegerInterval_Equals y x) (IntegerIntervals p)"

text \<open>The node after the inverse branch of \<^verbatim>\<open>GetOrInsertChild\<close> has registered a new
  group with the child \<open>new\<close> for the exclusion set of the pattern \<open>p\<close>.\<close>

definition registerIn :: "('k \<Rightarrow> 'k \<Rightarrow> bool) \<Rightarrow> 'k nodeFields \<Rightarrow> 'k list \<Rightarrow> addr \<Rightarrow> 'k nodeFields" where
  "registerIn equals n vs new =
     n\<lparr>inverseChildren := inverseChildren n @ [\<lparr>MatchNode = new, MaxRefCount = length vs\<rparr>],
       inverseChildIndexes := addIndexes equals (inverseChildIndexes n) vs (length (inverseChildren n))\<rparr>"

fun registerGroup :: "'f::{plus,minus,abs,ord} \<Rightarrow> 'f matchNode \<Rightarrow> 'f MatchPattern \<Rightarrow> addr \<Rightarrow> 'f matchNode" where
  "registerGroup eps (matchNodeOfNone rs) p new = matchNodeOfNone rs"
| "registerGroup eps (matchNodeOfString n) p new = matchNodeOfString (registerIn (=) n (Strings p) new)"
| "registerGroup eps (matchNodeOfInteger n) p new = matchNodeOfInteger (registerIn (=) n (Integers p) new)"
| "registerGroup eps (matchNodeOfIntegerInterval n) p new =
     matchNodeOfIntegerInterval (registerIn IntegerInterval_Equals n (IntegerIntervals p) new)"
| "registerGroup eps (matchNodeOfNumberInterval n) p new =
     matchNodeOfNumberInterval (registerIn (NumberInterval_Equals eps) n (NumberIntervals p) new)"

text \<open>
  In the heap \<open>h\<close> the node \<open>a\<close>, a string, integer or integer interval node,
  has a first group to reuse for the exclusion set of \<open>p\<close>, and \<open>c\<close> is its child.
\<close>

definition reuses :: "'f::{plus,minus,abs,ord} \<Rightarrow> 'f matchNode list \<Rightarrow> addr \<Rightarrow> 'f MatchPattern \<Rightarrow> addr \<Rightarrow> bool" where
  "reuses eps h a p c \<longleftrightarrow>
     a < length h \<and> exactKind (h ! a)
     \<and> (\<forall>i \<in> set (concat (lookups eps (h ! a) p)). i < length (groups (h ! a)))
     \<and> (\<exists>j. firstReusable (groups (h ! a)) (lookups eps (h ! a) p) = Some j
            \<and> MatchNode (groups (h ! a) ! j) = c)"

text \<open>An inverse pattern that excludes \<open>admin\<close> and \<open>root\<close>, a heap with one string
  node, and the heap after \<^verbatim>\<open>GetOrInsertChild\<close> was called on the node with the
  pattern.\<close>

definition notAdminRoot :: "int MatchPattern" where
  "notAdminRoot = (MatchPattern0 MatchString)\<lparr>IsInverse := True, Strings := [''admin'', ''root'']\<rparr>"

definition heapString :: "int matchNode list" where
  "heapString = [matchNodeOfString newFields]"

definition heapNotAdminRoot :: "int matchNode list" where
  "heapNotAdminRoot =
     [matchNodeOfString
        \<lparr>children = [], inverseChildren = [\<lparr>MatchNode = 1, MaxRefCount = 2\<rparr>],
         inverseChildIndexes = [(''admin'', [0]), (''root'', [0])], anyChild = None\<rparr>,
      matchNodeOfNone []]"

text \<open>
  What \<^verbatim>\<open>FindChildren\<close> is to yield: the children found for the key, then the
  children of the groups that are not excluded, then the wildcard child.
\<close>

definition yielded :: "addr list \<Rightarrow> matchNodeWithRefCount list \<Rightarrow> nat set \<Rightarrow> addr option \<Rightarrow> addr list" where
  "yielded exact gs excluded wildcard =
     exact @ map (\<lambda>j. MatchNode (gs ! j)) (filter (\<lambda>j. j \<notin> excluded) [0..<length gs])
       @ (case wildcard of None \<Rightarrow> [] | Some child \<Rightarrow> [child])"


text \<open>A rule whose only pattern excludes \<open>admin\<close> and \<open>root\<close>, and the tree \<^verbatim>\<open>AddRule\<close>
  makes of the empty tree over a string and this rule.\<close>

definition ruleNotAdminRoot :: "(int, string) MatchRule" where
  "ruleNotAdminRoot = ruleOf [notAdminRoot] ''U'' 0"

definition treeNotAdminRoot :: "(int, string) MatchTree" where
  "treeNotAdminRoot =
     \<lparr>types = [MatchString], values = [''U''], root = Some 0,
      heap =
        [matchNodeOfString
           \<lparr>children = [], inverseChildren = [\<lparr>MatchNode = 1, MaxRefCount = 2\<rparr>],
            inverseChildIndexes = [(''admin'', [0]), (''root'', [0])], anyChild = None\<rparr>,
         matchNodeOfNone [\<lparr>ValueIndex = 0, Priority_res = 0\<rparr>]]\<rparr>"

definition emptyString :: "(int, string) MatchTree" where
  "emptyString = \<lparr>types = [MatchString], values = [], root = None, heap = []\<rparr>"

subsection \<open>What a pattern admits\<close>

text \<open>
  The meaning of a pattern, as the documentation of \<^verbatim>\<open>MatchPattern\<close> gives it: a
  key hits a pattern when it is one of the pattern's strings or integers, or
  when one of the pattern's intervals contains it; an any pattern admits every
  key (the any flag is looked at first), an inverse pattern the keys that do
  not hit it, every other pattern the keys that hit it. A rule matches a key
  list when each pattern admits the key at its position.
\<close>

definition hits :: "'f::{plus,minus,abs,ord} \<Rightarrow> 'f MatchPattern \<Rightarrow> 'f MatchKey \<Rightarrow> bool" where
  "hits eps pattern key =
     (case Type pattern of
        MatchNone \<Rightarrow> False
      | MatchString \<Rightarrow> String key \<in> set (Strings pattern)
      | MatchInteger \<Rightarrow> Integer key \<in> set (Integers pattern)
      | MatchIntegerInterval \<Rightarrow>
          list_ex (\<lambda>v. IntegerInterval_Contains v (Integer key)) (IntegerIntervals pattern)
      | MatchNumberInterval \<Rightarrow>
          list_ex (\<lambda>v. NumberInterval_Contains eps v (Number key)) (NumberIntervals pattern))"

definition admits :: "'f::{plus,minus,abs,ord} \<Rightarrow> 'f MatchPattern \<Rightarrow> 'f MatchKey \<Rightarrow> bool" where
  "admits eps pattern key =
     (if IsAny pattern then True
      else if IsInverse pattern then \<not> hits eps pattern key
      else hits eps pattern key)"

definition matches :: "'f::{plus,minus,abs,ord} \<Rightarrow> ('f, 'v) MatchRule \<Rightarrow> 'f MatchKey list \<Rightarrow> bool" where
  "matches eps rule keys = list_all2 (admits eps) (Patterns rule) keys"

subsection \<open>Number intervals that are equal up to \<^verbatim>\<open>epsilon\<close>\<close>

text \<open>
  The examples with number intervals read \<^verbatim>\<open>float64\<close> as the rational numbers and
  \<^verbatim>\<open>epsilon\<close> as \<open>1e-10\<close>. Every comparison the code makes on them is decided by a
  margin of \<open>1e-11\<close> or more, and the rounding of a \<^verbatim>\<open>float64\<close> of this size is
  below \<open>1e-14\<close>.
\<close>

definition epsilon :: rat where
  "epsilon = 1 / 10000000000"

definition numbersFrom :: "rat \<Rightarrow> rat NumberInterval" where
  "numbersFrom x = \<lparr>Min_num = Some x, MinIsExcluded_num = False, Max_num = None, MaxIsExcluded_num = False\<rparr>"

definition numbersBetween :: "rat \<Rightarrow> rat \<Rightarrow> rat NumberInterval" where
  "numbersBetween x y =
     \<lparr>Min_num = Some x, MinIsExcluded_num = False, Max_num = Some y, MaxIsExcluded_num = False\<rparr>"

definition numberKey :: "rat \<Rightarrow> rat MatchKey" where
  "numberKey x = \<lparr>Type_key = MatchNumberInterval, String = [], Integer = 0, Number = x\<rparr>"

definition textKey :: "string \<Rightarrow> rat MatchKey" where
  "textKey s = \<lparr>Type_key = MatchString, String = s, Integer = 0, Number = 0\<rparr>"

definition numberPattern :: "rat NumberInterval list \<Rightarrow> rat MatchPattern" where
  "numberPattern vs =
     \<lparr>Type = MatchNumberInterval, IsAny = False, IsInverse = False, Strings = [], Integers = [],
      IntegerIntervals = [], NumberIntervals = vs, currentString = [], currentInteger = 0,
      currentIntegerInterval = IntegerInterval0, currentNumberInterval = numbersFrom 0\<rparr>"

definition textPattern :: "string list \<Rightarrow> rat MatchPattern" where
  "textPattern vs =
     \<lparr>Type = MatchString, IsAny = False, IsInverse = False, Strings = vs, Integers = [],
      IntegerIntervals = [], NumberIntervals = [], currentString = [], currentInteger = 0,
      currentIntegerInterval = IntegerInterval0, currentNumberInterval = numbersFrom 0\<rparr>"

definition notNumbers :: "rat NumberInterval list \<Rightarrow> rat MatchPattern" where
  "notNumbers vs = (numberPattern vs)\<lparr>IsInverse := True\<rparr>"

definition ruleFor :: "rat MatchPattern list \<Rightarrow> string \<Rightarrow> (rat, string) MatchRule" where
  "ruleFor patterns v = \<lparr>Patterns = patterns, Value = v, Priority = 0\<rparr>"

text \<open>The child \<^verbatim>\<open>GetOrInsertChild\<close> returns for a pattern at the root of a tree.\<close>

definition rootChild ::
  "'f::{plus,minus,abs,ord} \<Rightarrow> ('f, 'v) MatchTree option \<Rightarrow> 'f MatchPattern \<Rightarrow> addr option" where
  "rootChild eps built pattern =
     (case built of
        None \<Rightarrow> None
      | Some t \<Rightarrow>
          (case root t of
             None \<Rightarrow> None
           | Some node \<Rightarrow> map_option snd (GetOrInsertChild eps (heap t) node pattern MatchNone)))"

text \<open>The children \<^verbatim>\<open>FindChildren\<close> yields for a key at the root of a tree.\<close>

definition rootChildren ::
  "'f::{plus,minus,abs,ord} \<Rightarrow> ('f, 'v) MatchTree option \<Rightarrow> 'f MatchKey \<Rightarrow> addr list option" where
  "rootChildren eps built key =
     (case built of
        None \<Rightarrow> None
      | Some t \<Rightarrow> (case root t of None \<Rightarrow> None | Some node \<Rightarrow> FindChildren eps (heap t) node key))"

text \<open>
  Three rules over one number interval: \<open>A\<close> excludes \<open>[0, \<infinity>)\<close>, and \<open>B\<close> and \<open>C\<close>
  both exclude \<open>[-6e-11, \<infinity>)\<close> and \<open>[6e-11, \<infinity>)\<close>, two intervals that are not equal
  up to \<^verbatim>\<open>epsilon\<close> while each of them equals \<open>[0, \<infinity>)\<close> up to \<^verbatim>\<open>epsilon\<close>.
\<close>

definition notFromZero :: "rat MatchPattern" where
  "notFromZero = notNumbers [numbersFrom 0]"

definition notAroundZero :: "rat MatchPattern" where
  "notAroundZero = notNumbers [numbersFrom (- 6 / 100000000000), numbersFrom (6 / 100000000000)]"

definition treeNotShared :: "(rat, string) MatchTree" where
  "treeNotShared =
     \<lparr>types = [MatchNumberInterval], values = [''A'', ''B'', ''C''], root = Some 0,
      heap =
        [matchNodeOfNumberInterval
           \<lparr>children = [],
            inverseChildren =
              [\<lparr>MatchNode = 1, MaxRefCount = 1\<rparr>, \<lparr>MatchNode = 2, MaxRefCount = 2\<rparr>,
               \<lparr>MatchNode = 3, MaxRefCount = 2\<rparr>],
            inverseChildIndexes = [(numbersFrom 0, [0, 1, 1, 2, 2])],
            anyChild = None\<rparr>,
         matchNodeOfNone [\<lparr>ValueIndex = 0, Priority_res = 0\<rparr>],
         matchNodeOfNone [\<lparr>ValueIndex = 1, Priority_res = 0\<rparr>],
         matchNodeOfNone [\<lparr>ValueIndex = 2, Priority_res = 0\<rparr>]]\<rparr>"

text \<open>
  Two rules over one number interval: \<open>M1\<close> excludes \<open>[0, 10 + 9e-11]\<close> and
  \<open>[100, 200]\<close>, \<open>M2\<close> excludes \<open>[0, 10]\<close>; and the key \<open>10 + 1.5e-10\<close>.
\<close>

definition notTenAndHundreds :: "rat MatchPattern" where
  "notTenAndHundreds = notNumbers [numbersBetween 0 (10 + 9 / 100000000000), numbersBetween 100 200]"

definition notTen :: "rat MatchPattern" where
  "notTen = notNumbers [numbersBetween 0 10]"

definition aboveTen :: "rat MatchKey" where
  "aboveTen = numberKey (10 + 15 / 100000000000)"

text \<open>
  Two rules over a number interval and a string: \<open>R1\<close> is \<open>[0, 10 + 9e-11]\<close> with
  \<open>a\<close>, \<open>R2\<close> is \<open>[0, 10]\<close> with \<open>b\<close>.
\<close>

definition ruleR1 :: "(rat, string) MatchRule" where
  "ruleR1 = ruleFor [numberPattern [numbersBetween 0 (10 + 9 / 100000000000)], textPattern [''a'']] ''R1''"

definition ruleR2 :: "(rat, string) MatchRule" where
  "ruleR2 = ruleFor [numberPattern [numbersBetween 0 10], textPattern [''b'']] ''R2''"
section \<open>Shape validation\<close>

lemma checkTypes_None:
  "length actual = length expected \<Longrightarrow>
     checkTypes actual expected = None \<longleftrightarrow> (\<forall>i < length expected. actual ! i = expected ! i)"
proof (induction actual expected rule: list_induct2)
  case Nil
  then show ?case by simp
next
  case (Cons x xs y ys)
  then show ?case by (auto simp: less_Suc_eq_0_disj)
qed

lemma checkTypes_shapeMismatch:
  "length actual = length expected \<Longrightarrow>
     (\<exists>err. checkTypes actual expected = Some err) \<longleftrightarrow> shapeMismatch actual expected"
  using checkTypes_None [of actual expected] by (auto simp: shapeMismatch_def)

lemma AddRule_error_iff:
  "(\<exists>err t'. AddRule eps t rule = Some (Some err, t')) \<longleftrightarrow> shapeMismatch (map Type (Patterns rule)) (types t)"
proof (cases "length (Patterns rule) = length (types t)")
  case False
  then show ?thesis by (simp add: AddRule_def shapeMismatch_def)
next
  case True
  then have "(\<exists>err. checkTypes (map Type (Patterns rule)) (types t) = Some err)
               \<longleftrightarrow> shapeMismatch (map Type (Patterns rule)) (types t)"
    by (simp add: checkTypes_shapeMismatch)
  with True show ?thesis
    by (auto simp: AddRule_def Let_def split: option.splits)
qed

lemma AddRule_error_unchanged:
  "AddRule eps t rule = Some (Some err, t') \<Longrightarrow> t' = t"
  by (auto simp: AddRule_def Let_def split: if_splits option.splits)

lemma Search_error_iff:
  "(\<exists>err. Search eps t keys = Some (Inl err)) \<longleftrightarrow> shapeMismatch (map Type_key keys) (types t)"
proof (cases "length keys = length (types t)")
  case False
  then show ?thesis by (simp add: Search_def shapeMismatch_def)
next
  case True
  then have "(\<exists>err. checkTypes (map Type_key keys) (types t) = Some err)
               \<longleftrightarrow> shapeMismatch (map Type_key keys) (types t)"
    by (simp add: checkTypes_shapeMismatch)
  with True show ?thesis
    by (auto simp: Search_def Let_def split: option.splits if_splits)
qed

text \<open>
  Claim C2. \<^verbatim>\<open>AddRule\<close> returns an error exactly when the pattern list differs from
  the kinds of the tree in length or in the kind at some position, and
  \<^verbatim>\<open>Search\<close> returns an error exactly when the key list does; the tree after an
  \<^verbatim>\<open>AddRule\<close> that returned an error is the tree before it: no value appended,
  no node created or changed. (\<^verbatim>\<open>Search\<close> writes to no tree at all.)
\<close>

theorem shape_validation:
  "((\<exists>err t'. AddRule eps t rule = Some (Some err, t'))
      \<longleftrightarrow> shapeMismatch (map Type (Patterns rule)) (types t))
   \<and> (\<forall>err t'. AddRule eps t rule = Some (Some err, t') \<longrightarrow> t' = t)
   \<and> ((\<exists>err. Search eps t keys = Some (Inl err))
      \<longleftrightarrow> shapeMismatch (map Type_key keys) (types t))"
  using AddRule_error_iff [of eps t rule] AddRule_error_unchanged [of eps t rule]
    Search_error_iff [of eps t keys]
  by blast

theorem shape_validation_witness:
  "shapeMismatch (map Type (Patterns (ruleOf [MatchPattern0 MatchInteger] ''V'' 0))) [MatchString]
   \<and> shapeMismatch (map Type_key [stringKey ''x'', integerKey 1]) [MatchString]
   \<and> (\<exists>err. AddRule (0::int) \<lparr>types = [MatchString], values = [], root = None, heap = []\<rparr>
               (ruleOf [MatchPattern0 MatchInteger] ''V'' 0)
             = Some (Some err, \<lparr>types = [MatchString], values = [], root = None, heap = []\<rparr>))
   \<and> (\<exists>err. Search (0::int) \<lparr>types = [MatchString], values = [] :: string list, root = None, heap = []\<rparr>
               [stringKey ''x'', integerKey 1] = Some (Inl err))"
proof -
  let ?t = "\<lparr>types = [MatchString], values = [] :: string list, root = None, heap = [] :: int matchNode list\<rparr>"
  let ?rule = "ruleOf [MatchPattern0 MatchInteger] ''V'' 0"
  let ?keys = "[stringKey ''x'', integerKey 1]"
  have a: "shapeMismatch (map Type (Patterns ?rule)) (types ?t)"
    by (simp add: shapeMismatch_def ruleOf_def MatchPattern0_def)
  have b: "shapeMismatch (map Type_key ?keys) (types ?t)"
    by (simp add: shapeMismatch_def)
  from a b shape_validation [of 0 ?t ?rule ?keys] show ?thesis
    by (metis select_convs(1))
qed

section \<open>The order of the values\<close>

text \<open>
  Claim C1, at two rules that both match the key \<open>x\<close>: \<open>A\<close>, added first with
  priority \<open>9223372036854775807\<close>, and \<open>B\<close>, added second with priority \<open>-2\<close>. The
  comparator's \<^verbatim>\<open>y.Priority - x.Priority\<close> wraps around to a negative number, the
  sort takes \<open>B\<close> for the greater priority, and \<^verbatim>\<open>Search\<close> returns \<open>B\<close> before \<open>A\<close>.
\<close>

theorem Search_priority_wraps:
  "searchIn 0 (buildTree 0 [MatchString] rulesMaxAndMinus2) [stringKey ''x''] = Some (Inr [''B'', ''A''])"
  by code_simp

section \<open>The paths of a rule\<close>

lemma addPaths_append:
  "addPaths eps vi pr t (xs @ ys) =
     (case addPaths eps vi pr t xs of None \<Rightarrow> None | Some t' \<Rightarrow> addPaths eps vi pr t' ys)"
  by (induction xs arbitrary: t) (auto split: option.splits)

text \<open>\<^verbatim>\<open>walkPatterns\<close> calls \<^verbatim>\<open>doAddRule\<close> once for every element of the product of
  the rounds of its patterns, in lexicographic order.\<close>

lemma walk_expand:
  fixes eps :: "'f::{plus,minus,abs,ord}" and t :: "('f, 'v) MatchTree"
  shows "\<forall>pss. those (map rounds todo) = Some pss \<longrightarrow>
           walkPatterns eps vi pr t done todo
             = addPaths eps vi pr t (map (\<lambda>path. done @ path) (product_lists pss))"
    and "\<forall>pss. those (map rounds todo') = Some pss \<longrightarrow>
           walkRounds eps vi pr t done' ps todo'
             = addPaths eps vi pr t (concat (map (\<lambda>p. map (\<lambda>path. done' @ p # path) (product_lists pss)) ps))"
proof (induction eps vi pr t "done" todo and eps vi pr t done' ps todo' rule: walkPatterns_walkRounds.induct)
  case (1 eps vi pr t "done")
  then show ?case by (simp split: option.splits)
next
  case (2 eps vi pr t "done" pattern todo)
  show ?case
  proof (intro allI impI)
    fix pss
    assume a: "those (map rounds (pattern # todo)) = Some pss"
    then obtain ps pss' where r: "rounds pattern = Some ps" and t: "those (map rounds todo) = Some pss'"
      and p: "pss = ps # pss'"
      by (auto split: option.splits)
    have "walkRounds eps vi pr t done ps todo
            = addPaths eps vi pr t (concat (map (\<lambda>p. map (\<lambda>path. done @ p # path) (product_lists pss')) ps))"
      using "2.IH" [OF r] t by blast
    moreover have "map (\<lambda>path. done @ path) (product_lists (ps # pss'))
            = concat (map (\<lambda>p. map (\<lambda>path. done @ p # path) (product_lists pss')) ps)"
      by (simp add: map_concat comp_def)
    ultimately show "walkPatterns eps vi pr t done (pattern # todo)
            = addPaths eps vi pr t (map (\<lambda>path. done @ path) (product_lists pss))"
      using r p by simp
  qed
next
  case (3 eps vi pr t "done" todo)
  then show ?case by simp
next
  case (4 eps vi pr t "done" p ps todo)
  show ?case
  proof (intro allI impI)
    fix pss
    assume a: "those (map rounds todo) = Some pss"
    have h: "walkPatterns eps vi pr t (done @ [p]) todo
               = addPaths eps vi pr t (map (\<lambda>path. done @ p # path) (product_lists pss))"
    proof -
      have "(@) (done @ [p]) = (\<lambda>path. done @ p # path)"
        by (simp add: fun_eq_iff)
      with "4.IH"(1) a show ?thesis by simp
    qed
    show "walkRounds eps vi pr t done (p # ps) todo
            = addPaths eps vi pr t (concat (map (\<lambda>p. map (\<lambda>path. done @ p # path) (product_lists pss)) (p # ps)))"
    proof (cases "walkPatterns eps vi pr t (done @ [p]) todo")
      case None
      then show ?thesis using h by (simp add: addPaths_append)
    next
      case (Some t')
      then show ?thesis using h "4.IH"(2) [OF Some] a by (simp add: addPaths_append)
    qed
  qed
qed

lemma product_lists_empty: "[] \<in> set pss \<Longrightarrow> product_lists pss = []"
  by (induction pss) auto


lemma those_map_Some:
  "(\<forall>x \<in> set xs. f x \<noteq> None) \<Longrightarrow> those (map f xs) = Some (map (\<lambda>x. the (f x)) xs)"
  by (induction xs) auto

lemma rounds_Some: "Type pattern \<noteq> MatchNone \<Longrightarrow> rounds pattern \<noteq> None"
  by (cases "Type pattern") (auto simp: rounds_def)

lemma Type_clonePattern [simp]: "Type (clonePattern eps pattern) = Type pattern"
  by (simp add: clonePattern_def)

lemma shape_types:
  assumes "\<not> shapeMismatch (map Type patterns) types1" and "MatchNone \<notin> set types1"
  shows "\<forall>pattern \<in> set patterns. Type pattern \<noteq> MatchNone"
proof
  fix pattern
  assume "pattern \<in> set patterns"
  then obtain i where i: "i < length patterns" and p: "patterns ! i = pattern"
    by (auto simp: in_set_conv_nth)
  from assms(1) i have "Type (patterns ! i) = types1 ! i" and "i < length types1"
    by (auto simp: shapeMismatch_def)
  with assms(2) p show "Type pattern \<noteq> MatchNone"
    by (metis nth_mem)
qed

lemma AddRule_valid:
  assumes "\<not> shapeMismatch (map Type (Patterns rule)) (types t)"
  shows "AddRule eps t rule =
           map_option (Pair None)
             (walkPatterns eps (int (length (values t))) (Priority rule)
                (t\<lparr>values := values t @ [Value rule]\<rparr>) [] (map (clonePattern eps) (Patterns rule)))"
proof -
  from assms have l: "length (Patterns rule) = length (types t)"
    and "\<forall>i < length (types t). map Type (Patterns rule) ! i = types t ! i"
    by (auto simp: shapeMismatch_def)
  then have "checkTypes (map Type (Patterns rule)) (types t) = None"
    using checkTypes_None [of "map Type (Patterns rule)" "types t"] by simp
  with l show ?thesis
    by (simp add: AddRule_def Let_def Pair_def [symmetric] cong: map_option_cong)
qed

lemma AddRule_addPaths:
  assumes "\<not> shapeMismatch (map Type (Patterns rule)) (types t)" and "MatchNone \<notin> set (types t)"
  shows "\<exists>pss. those (map rounds (map (clonePattern eps) (Patterns rule))) = Some pss
           \<and> AddRule eps t rule =
               map_option (Pair None)
                 (addPaths eps (int (length (values t))) (Priority rule)
                    (t\<lparr>values := values t @ [Value rule]\<rparr>) (product_lists pss))"
proof -
  let ?ps = "map (clonePattern eps) (Patterns rule)"
  from shape_types [OF assms] have "\<forall>p \<in> set ?ps. rounds p \<noteq> None"
    using rounds_Some [of "clonePattern eps p" for p] by auto
  then have "those (map rounds ?ps) = Some (map (\<lambda>p. the (rounds p)) ?ps)"
    by (rule those_map_Some)
  moreover from this walk_expand(1) [of ?ps eps "int (length (values t))" "Priority rule"
      "t\<lparr>values := values t @ [Value rule]\<rparr>" "[]"]
  have "walkPatterns eps (int (length (values t))) (Priority rule)
          (t\<lparr>values := values t @ [Value rule]\<rparr>) [] ?ps
        = addPaths eps (int (length (values t))) (Priority rule)
            (t\<lparr>values := values t @ [Value rule]\<rparr>) (product_lists (map (\<lambda>p. the (rounds p)) ?ps))"
    by simp
  ultimately show ?thesis
    using AddRule_valid [OF assms(1), of eps] by simp
qed


lemma cloneLoop_nil [simp]: "cloneLoop equals clone [] = clone"
  by simp

lemma rounds_emptyPattern:
  assumes "emptyPattern pattern" and "Type pattern \<noteq> MatchNone"
  shows "rounds (clonePattern eps pattern) = Some []"
  using assms
  by (cases "Type pattern")
     (auto simp: rounds_def emptyPattern_def clonePattern_def cloneStrings_def cloneIntegers_def
        cloneIntegerIntervals_def cloneNumberIntervals_def)

lemma those_map_mono:
  assumes "those (map f xs) = Some ys" and "\<And>x y. f x = Some y \<Longrightarrow> g x = Some y"
  shows "those (map g xs) = Some ys"
  using assms by (induction xs arbitrary: ys) (auto split: option.splits)

lemma valueAt_append: "valueAt t i = Some v \<Longrightarrow> valueAt (t\<lparr>values := values t @ vs\<rparr>) i = Some v"
  by (auto simp: valueAt_def nth_append split: if_splits)

lemma extractValues_append:
  assumes "extractValues t nodes = Some vs"
  shows "extractValues (t\<lparr>values := values t @ ws\<rparr>) nodes = Some vs"
proof -
  from assms obtain resultss where r: "those (map (GetResults (heap t)) nodes) = Some resultss"
    by (auto simp: extractValues_def split: option.splits)
  show ?thesis
  proof (cases "sum_list (map length resultss) = 1")
    case True
    with assms r show ?thesis
      by (auto simp: extractValues_def valueAt_append split: list.splits)
  next
    case False
    with assms r have "those (map (\<lambda>result. valueAt t (ValueIndex result))
        (dropRepeated (- 1) (SortFunc compareResults (concat resultss)))) = Some vs"
      by (simp add: extractValues_def)
    then have "those (map (\<lambda>result. valueAt (t\<lparr>values := values t @ ws\<rparr>) (ValueIndex result))
        (dropRepeated (- 1) (SortFunc compareResults (concat resultss)))) = Some vs"
      by (rule those_map_mono) (rule valueAt_append)
    with False r show ?thesis
      by (simp add: extractValues_def)
  qed
qed

lemma Search_append:
  assumes "Search eps t keys = Some r"
  shows "Search eps (t\<lparr>values := values t @ ws\<rparr>) keys = Some r"
proof (cases r)
  case (Inl err)
  with assms show ?thesis
    by (auto simp: Search_def split: if_splits option.splits)
next
  case (Inr vs)
  with assms show ?thesis
    by (auto simp: Search_def extractValues_append split: if_splits option.splits)
qed

text \<open>
  Claim C7 as stated does not hold: \<^verbatim>\<open>AddRule\<close> has the tree and the rule for its
  only arguments, and at the rule whose one pattern is empty the search for \<open>x\<close>
  finds nothing, where the rule with the wildcard pattern is found.
\<close>

theorem empty_pattern_is_no_wildcard:
  "searchIn 0 (buildTree 0 [MatchString] [ruleOf [MatchPattern0 MatchString] ''V'' 0]) [stringKey ''x'']
     = Some (Inr [])
   \<and> searchIn 0 (buildTree 0 [MatchString] [ruleOf [anyString] ''V'' 0]) [stringKey ''x'']
     = Some (Inr [''V''])"
  by code_simp

text \<open>
  Claim C7, amended. \<^verbatim>\<open>AddRule\<close> takes no option. A rule of the right shape with
  an empty pattern (no flag, no value) appends its value to the value table and
  nothing else: no node is created or changed, no result is added, and every
  search returns what it returned before.
\<close>

theorem empty_pattern_matches_nothing:
  "MatchNone \<notin> set (types t) \<and> \<not> shapeMismatch (map Type (Patterns rule)) (types t)
     \<and> (\<exists>pattern \<in> set (Patterns rule). emptyPattern pattern)
   \<longrightarrow> AddRule eps t rule = Some (None, t\<lparr>values := values t @ [Value rule]\<rparr>)
       \<and> (\<forall>keys r. Search eps t keys = Some r
            \<longrightarrow> Search eps (t\<lparr>values := values t @ [Value rule]\<rparr>) keys = Some r)"
proof (intro impI, elim conjE bexE)
  fix pattern
  assume ty: "MatchNone \<notin> set (types t)"
    and sh: "\<not> shapeMismatch (map Type (Patterns rule)) (types t)"
    and p: "pattern \<in> set (Patterns rule)" and e: "emptyPattern pattern"
  from AddRule_addPaths [OF sh ty, of eps] obtain pss
    where pss: "those (map rounds (map (clonePattern eps) (Patterns rule))) = Some pss"
      and add: "AddRule eps t rule =
                  map_option (Pair None)
                    (addPaths eps (int (length (values t))) (Priority rule)
                       (t\<lparr>values := values t @ [Value rule]\<rparr>) (product_lists pss))"
    by blast
  from shape_types [OF sh ty] p have "Type pattern \<noteq> MatchNone"
    by blast
  with e have r: "rounds (clonePattern eps pattern) = Some []"
    by (rule rounds_emptyPattern)
  have "pss = map (\<lambda>p. the (rounds p)) (map (clonePattern eps) (Patterns rule))"
  proof -
    from shape_types [OF sh ty] have "\<forall>p \<in> set (map (clonePattern eps) (Patterns rule)). rounds p \<noteq> None"
      using rounds_Some [of "clonePattern eps p" for p] by auto
    from those_map_Some [OF this] pss show ?thesis by simp
  qed
  with p r have "[] \<in> set pss"
    by (force simp: image_iff)
  then have "product_lists pss = []"
    by (rule product_lists_empty)
  with add have "AddRule eps t rule = Some (None, t\<lparr>values := values t @ [Value rule]\<rparr>)"
    by simp
  then show "AddRule eps t rule = Some (None, t\<lparr>values := values t @ [Value rule]\<rparr>)
       \<and> (\<forall>keys r. Search eps t keys = Some r
            \<longrightarrow> Search eps (t\<lparr>values := values t @ [Value rule]\<rparr>) keys = Some r)"
    using Search_append by blast
qed

theorem empty_pattern_matches_nothing_witness:
  "MatchNone \<notin> set [MatchString]
   \<and> \<not> shapeMismatch (map Type (Patterns (ruleOf [MatchPattern0 MatchString] ''V'' 0))) [MatchString]
   \<and> emptyPattern (MatchPattern0 MatchString)
   \<and> AddRule (0::int) \<lparr>types = [MatchString], values = [], root = None, heap = []\<rparr>
        (ruleOf [MatchPattern0 MatchString] ''V'' 0)
      = Some (None, \<lparr>types = [MatchString], values = [''V''], root = None, heap = []\<rparr>)"
proof -
  let ?t = "\<lparr>types = [MatchString], values = [] :: string list, root = None, heap = [] :: int matchNode list\<rparr>"
  let ?rule = "ruleOf [MatchPattern0 MatchString] ''V'' 0"
  have a: "MatchNone \<notin> set (types ?t)"
    by simp
  have b: "\<not> shapeMismatch (map Type (Patterns ?rule)) (types ?t)"
    by (simp add: shapeMismatch_def ruleOf_def MatchPattern0_def)
  have c: "emptyPattern (MatchPattern0 MatchString)"
    by (simp add: emptyPattern_def MatchPattern0_def)
  then have d: "\<exists>pattern \<in> set (Patterns ?rule). emptyPattern pattern"
    by (simp add: ruleOf_def)
  from a b c d empty_pattern_matches_nothing [of ?t ?rule 0] show ?thesis
    by (simp add: ruleOf_def)
qed



section \<open>Searches that find nothing\<close>

lemma searchLoop_Nil: "searchLoop eps h [] keys = Some []"
  by (induction keys) auto

lemma Search_valid:
  assumes "\<not> shapeMismatch (map Type_key keys) (types t)"
  shows "Search eps t keys =
           (case searchLoop eps (heap t) (case root t of None \<Rightarrow> [] | Some node \<Rightarrow> [node]) keys of
              None \<Rightarrow> None
            | Some nodes \<Rightarrow> if nodes = [] then Some (Inr []) else map_option Inr (extractValues t nodes))"
proof -
  from assms have l: "length keys = length (types t)"
    and "\<forall>i < length (types t). map Type_key keys ! i = types t ! i"
    by (auto simp: shapeMismatch_def)
  then have "checkTypes (map Type_key keys) (types t) = None"
    using checkTypes_None [of "map Type_key keys" "types t"] by simp
  with l show ?thesis
    by (simp add: Search_def split: option.splits)
qed

lemma NewMatchTree_root: "NewMatchTree types1 = Some t \<Longrightarrow> root t = None \<and> types t = types1"
  by (auto simp: NewMatchTree_def split: if_splits)

section \<open>Counting references\<close>

lemma incRefCounts_append:
  "incRefCounts rc (xs @ ys) = (case incRefCounts rc xs of None \<Rightarrow> None | Some rc' \<Rightarrow> incRefCounts rc' ys)"
  by (induction xs arbitrary: rc) auto

lemma incRefCounts_Some:
  "incRefCounts rc js = Some rc' \<Longrightarrow>
     length rc' = length rc \<and> (\<forall>j \<in> set js. j < length rc)
     \<and> (\<forall>j < length rc. rc' ! j = rc ! j + count_list js j)"
proof (induction js arbitrary: rc)
  case Nil
  then show ?case by simp
next
  case (Cons i js)
  from Cons.prems have i: "i < length rc"
    and r: "incRefCounts (rc[i := rc ! i + 1]) js = Some rc'"
    by (auto split: if_splits)
  from Cons.IH [OF r] i show ?case
    by (auto simp: nth_list_update)
qed

lemma incRefCounts_total:
  "(\<forall>j \<in> set js. j < length rc) \<Longrightarrow> \<exists>rc'. incRefCounts rc js = Some rc'"
  by (induction js arbitrary: rc) auto

lemma countRefs_incRefCounts:
  "countRefs equals indexes vs rc = incRefCounts rc (concat (map (lookupIndexes equals indexes) vs))"
proof (induction vs arbitrary: rc)
  case Nil
  then show ?case by simp
next
  case (Cons v vs)
  then show ?case
    by (simp add: incRefCounts_append lookupIndexes_def split: option.splits)
qed

lemma find_Some_set: "find P xs = Some x \<Longrightarrow> x \<in> set xs \<and> P x"
  by (induction xs) (auto split: if_splits)

lemma lookupIndexes_subset:
  assumes "j \<in> set (lookupIndexes equals indexes v)"
  shows "\<exists>x \<in> set indexes. j \<in> set (snd x)"
proof (cases "find (\<lambda>x. equals (fst x) v) indexes")
  case None
  with assms show ?thesis by (simp add: lookupIndexes_def)
next
  case (Some x)
  with assms have "j \<in> set (snd x)" by (simp add: lookupIndexes_def)
  moreover from Some have "x \<in> set indexes" by (simp add: find_Some_set)
  ultimately show ?thesis by blast
qed

lemma countRefs_Some:
  assumes "countRefs equals indexes vs (replicate m 0) = Some rc"
  shows "length rc = m \<and> (\<forall>j < m. rc ! j = refCount equals indexes vs j)
         \<and> (\<forall>j \<in> set (concat (map (lookupIndexes equals indexes) vs)). j < m)"
  using incRefCounts_Some [of "replicate m 0" "concat (map (lookupIndexes equals indexes) vs)" rc] assms
  by (simp add: countRefs_incRefCounts refCount_def)

lemma countRefs_total:
  assumes "\<forall>x \<in> set indexes. \<forall>j \<in> set (snd x). j < m"
  shows "\<exists>rc. countRefs equals indexes vs (replicate m 0) = Some rc"
proof -
  have "\<forall>j \<in> set (concat (map (lookupIndexes equals indexes) vs)). j < length (replicate m (0::nat))"
  proof
    fix j
    assume "j \<in> set (concat (map (lookupIndexes equals indexes) vs))"
    then obtain v where "j \<in> set (lookupIndexes equals indexes v)" by auto
    from lookupIndexes_subset [OF this] assms show "j < length (replicate m (0::nat))" by auto
  qed
  from incRefCounts_total [OF this] show ?thesis
    by (simp add: countRefs_incRefCounts)
qed

section \<open>What GetOrInsertChild does to a node\<close>

lemma appendIndex_snd:
  "x \<in> set (appendIndex equals indexes v m) \<Longrightarrow>
     set (snd x) \<subseteq> insert m (\<Union>y \<in> set indexes. set (snd y))"
  by (induction indexes) (auto split: if_splits)

lemma addIndexes_snd:
  "x \<in> set (addIndexes equals indexes vs m) \<Longrightarrow>
     set (snd x) \<subseteq> insert m (\<Union>y \<in> set indexes. set (snd y))"
proof (induction vs arbitrary: indexes)
  case Nil
  then show ?case by auto
next
  case (Cons v vs)
  from Cons.IH [OF Cons.prems [simplified]]
  have "set (snd x) \<subseteq> insert m (\<Union>y \<in> set (appendIndex equals indexes v m). set (snd y))" .
  moreover have "(\<Union>y \<in> set (appendIndex equals indexes v m). set (snd y))
                   \<subseteq> insert m (\<Union>y \<in> set indexes. set (snd y))"
    using appendIndex_snd [of _ equals indexes v m] by blast
  ultimately show ?case by blast
qed

lemma linksIn_simps:
  "linksIn (n\<lparr>anyChild := Some c\<rparr>) = map snd (children n) @ map MatchNode (inverseChildren n) @ [c]"
  "linksIn (n\<lparr>children := children n @ [(k, c)]\<rparr>)
     = map snd (children n) @ [c] @ map MatchNode (inverseChildren n)
         @ (case anyChild n of None \<Rightarrow> [] | Some child \<Rightarrow> [child])"
  "linksIn (n\<lparr>inverseChildren := inverseChildren n @ [\<lparr>MatchNode = c, MaxRefCount = m\<rparr>], inverseChildIndexes := idx\<rparr>)
     = map snd (children n) @ map MatchNode (inverseChildren n) @ [c]
         @ (case anyChild n of None \<Rightarrow> [] | Some child \<Rightarrow> [child])"
  by (simp_all add: linksIn_def)

lemma getOrInsertChildIn_effect:
  assumes "getOrInsertChildIn equals n isAny isInverse vs cur new = Some (n', c, created)"
  shows "if created
         then c = new \<and> set (linksIn n') = insert new (set (linksIn n))
              \<and> (indexesInRange n \<longrightarrow> indexesInRange n')
         else n' = n \<and> c \<in> set (linksIn n)"
proof (cases isAny)
  case True
  with assms show ?thesis
    by (cases "anyChild n") (auto simp: getOrInsertChildIn_def linksIn_def indexesInRange_def)
next
  case notAny: False
  show ?thesis
  proof (cases isInverse)
    case True
    with notAny assms obtain rc
      where rc: "countRefs equals (inverseChildIndexes n) vs (replicate (length (inverseChildren n)) 0) = Some rc"
      by (auto simp: getOrInsertChildIn_def split: option.splits)
    from countRefs_Some [OF rc] have len: "length rc = length (inverseChildren n)"
      by simp
    show ?thesis
    proof (cases "find (\<lambda>j. rc ! j = length vs \<and> MaxRefCount (inverseChildren n ! j) = length vs)
                    [0..<length rc]")
      case None
      with True notAny assms rc
      have n': "n' = n\<lparr>inverseChildren := inverseChildren n @ [\<lparr>MatchNode = new, MaxRefCount = length vs\<rparr>],
                        inverseChildIndexes := addIndexes equals (inverseChildIndexes n) vs (length (inverseChildren n))\<rparr>"
        and c: "c = new" and cr: "created"
        by (auto simp: getOrInsertChildIn_def Let_def)
      have "indexesInRange n \<longrightarrow> indexesInRange n'"
      proof
        assume r: "indexesInRange n"
        show "indexesInRange n'"
          unfolding indexesInRange_def
        proof (intro ballI)
          fix x j
          assume "x \<in> set (inverseChildIndexes n')" and j: "j \<in> set (snd x)"
          then have "x \<in> set (addIndexes equals (inverseChildIndexes n) vs (length (inverseChildren n)))"
            by (simp add: n')
          from addIndexes_snd [OF this] j
          have "j = length (inverseChildren n) \<or> (\<exists>y \<in> set (inverseChildIndexes n). j \<in> set (snd y))"
            by auto
          with r show "j < length (inverseChildren n')"
            by (auto simp: n' indexesInRange_def less_Suc_eq)
        qed
      qed
      moreover have "set (linksIn n') = insert new (set (linksIn n))"
        by (auto simp: n' linksIn_def)
      ultimately show ?thesis using c cr by simp
    next
      case (Some j)
      with True notAny assms rc
      have n': "n' = n" and c: "c = MatchNode (inverseChildren n ! j)" and cr: "\<not> created"
        by (auto simp: getOrInsertChildIn_def Let_def)
      from find_Some_set [OF Some] have "j \<in> set [0..<length rc]"
        by simp
      with len have "j < length (inverseChildren n)" by simp
      then have "c \<in> set (linksIn n)"
        by (simp add: c linksIn_def)
      with n' cr show ?thesis by simp
    qed
  next
    case False
    show ?thesis
    proof (cases "find (\<lambda>x. equals (fst x) cur) (children n)")
      case None
      with False notAny assms show ?thesis
        by (auto simp: getOrInsertChildIn_def linksIn_def indexesInRange_def)
    next
      case (Some x)
      from find_Some_set [OF this] have "x \<in> set (children n)" by simp
      with Some False notAny assms show ?thesis
        by (auto simp: getOrInsertChildIn_def linksIn_def)
    qed
  qed
qed

lemma getOrInsertChildIn_total:
  assumes "indexesInRange n"
  shows "getOrInsertChildIn equals n isAny isInverse vs cur new \<noteq> None"
proof -
  from assms countRefs_total [of "inverseChildIndexes n" "length (inverseChildren n)" equals vs]
  obtain rc where "countRefs equals (inverseChildIndexes n) vs (replicate (length (inverseChildren n)) 0) = Some rc"
    by (auto simp: indexesInRange_def)
  then show ?thesis
    by (auto simp: getOrInsertChildIn_def Let_def split: option.splits)
qed

lemma storeChild_effect:
  assumes g: "getOrInsertChildIn equals n isAny isInverse vs cur (length h) = Some r"
    and s: "storeChild h a ty mk r = (h', c)"
    and mk: "\<And>m. links (mk m) = linksIn m" "\<And>m. inRange (mk m) = indexesInRange m" "\<And>m. \<not> isLeaf (mk m)"
    and a: "h ! a = mk n"
  shows "(h' = h \<and> c \<in> set (links (h ! a)))
         \<or> (\<exists>node'. h' = h[a := node'] @ [newMatchNode ty] \<and> c = length h \<and> \<not> isLeaf node'
               \<and> set (links node') = insert (length h) (set (links (h ! a)))
               \<and> (inRange (h ! a) \<longrightarrow> inRange node'))"
proof -
  obtain n' c' created where r: "r = (n', c', created)"
    by (cases r) auto
  from getOrInsertChildIn_effect [OF g [unfolded r]]
  have e: "if created
           then c' = length h \<and> set (linksIn n') = insert (length h) (set (linksIn n))
                \<and> (indexesInRange n \<longrightarrow> indexesInRange n')
           else n' = n \<and> c' \<in> set (linksIn n)" .
  show ?thesis
  proof (cases created)
    case True
    with s r have "h' = h[a := mk n'] @ [newMatchNode ty]" and "c = c'"
      by (auto simp: storeChild_def)
    with e True mk a show ?thesis
      by auto
  next
    case False
    with s r have "h' = h" and "c = c'"
      by (auto simp: storeChild_def)
    with e False mk a show ?thesis
      by auto
  qed
qed

lemma GetOrInsertChild_effect:
  assumes "GetOrInsertChild eps h a p ty = Some (h', c)"
  shows "a < length h \<and> \<not> isLeaf (h ! a)
         \<and> ((h' = h \<and> c \<in> set (links (h ! a)))
            \<or> (\<exists>node'. h' = h[a := node'] @ [newMatchNode ty] \<and> c = length h \<and> \<not> isLeaf node'
                  \<and> set (links node') = insert (length h) (set (links (h ! a)))
                  \<and> (inRange (h ! a) \<longrightarrow> inRange node')))"
proof -
  from assms have a: "a < length h"
    by (auto simp: GetOrInsertChild_def split: if_splits)
  show ?thesis
  proof (cases "h ! a")
    case (matchNodeOfNone rs)
    with assms a show ?thesis by (simp add: GetOrInsertChild_def)
  next
    case (matchNodeOfString n)
    with assms a obtain r where
      "getOrInsertChildIn (=) n (IsAny p) (IsInverse p) (Strings p) (currentString p) (length h) = Some r"
      "storeChild h a ty matchNodeOfString r = (h', c)"
      by (auto simp: GetOrInsertChild_def)
    from storeChild_effect [OF this _ _ _ matchNodeOfString] a matchNodeOfString show ?thesis
      by simp
  next
    case (matchNodeOfInteger n)
    with assms a obtain r where
      "getOrInsertChildIn (=) n (IsAny p) (IsInverse p) (Integers p) (currentInteger p) (length h) = Some r"
      "storeChild h a ty matchNodeOfInteger r = (h', c)"
      by (auto simp: GetOrInsertChild_def)
    from storeChild_effect [OF this _ _ _ matchNodeOfInteger] a matchNodeOfInteger show ?thesis
      by simp
  next
    case (matchNodeOfIntegerInterval n)
    with assms a obtain r where
      "getOrInsertChildIn IntegerInterval_Equals n (IsAny p) (IsInverse p) (IntegerIntervals p)
         (currentIntegerInterval p) (length h) = Some r"
      "storeChild h a ty matchNodeOfIntegerInterval r = (h', c)"
      by (auto simp: GetOrInsertChild_def)
    from storeChild_effect [OF this _ _ _ matchNodeOfIntegerInterval] a matchNodeOfIntegerInterval show ?thesis
      by simp
  next
    case (matchNodeOfNumberInterval n)
    with assms a obtain r where
      "getOrInsertChildIn (NumberInterval_Equals eps) n (IsAny p) (IsInverse p) (NumberIntervals p)
         (currentNumberInterval p) (length h) = Some r"
      "storeChild h a ty matchNodeOfNumberInterval r = (h', c)"
      by (auto simp: GetOrInsertChild_def)
    from storeChild_effect [OF this _ _ _ matchNodeOfNumberInterval] a matchNodeOfNumberInterval show ?thesis
      by simp
  qed
qed

lemma GetOrInsertChild_total:
  assumes "a < length h" and "\<not> isLeaf (h ! a)" and "inRange (h ! a)"
  shows "GetOrInsertChild eps h a p ty \<noteq> None"
  using assms
  by (cases "h ! a") (auto simp: GetOrInsertChild_def getOrInsertChildIn_total)

lemma AddResult_effect:
  assumes "AddResult h a res = Some h'"
  shows "a < length h \<and> (\<exists>rs. h ! a = matchNodeOfNone rs \<and> h' = h[a := matchNodeOfNone (rs @ [res])])"
  using assms by (auto simp: AddResult_def split: if_splits matchNode.splits)

lemma AddResult_total:
  "a < length h \<Longrightarrow> isLeaf (h ! a) \<Longrightarrow> AddResult h a res \<noteq> None"
  by (cases "h ! a") (auto simp: AddResult_def)

section \<open>Well-formed heaps\<close>

lemma newMatchNode_props [simp]:
  "links (newMatchNode ty) = []" "inRange (newMatchNode ty)" "isLeaf (newMatchNode ty) \<longleftrightarrow> ty = MatchNone"
  "newMatchNode ty = matchNodeOfNone rs \<longleftrightarrow> ty = MatchNone \<and> rs = []"
  by (cases ty, auto simp: newFields_def linksIn_def indexesInRange_def)+

lemma wellFormedHeap_step:
  assumes wf: "wellFormedHeap N d h" and a: "a < length h" and da: "Suc (d a) \<le> N"
    and n: "\<not> isLeaf node'" "set (links node') = insert (length h) (set (links (h ! a)))" "inRange node'"
    and new: "isLeaf new \<longleftrightarrow> Suc (d a) = N" "links new = []" "inRange new"
  shows "wellFormedHeap N (d(length h := Suc (d a))) (h[a := node'] @ [new])"
  unfolding wellFormedHeap_def
proof (intro allI impI)
  fix b
  let ?d = "d(length h := Suc (d a))" and ?h = "h[a := node'] @ [new]"
  assume "b < length ?h"
  then consider "b = length h" | "b = a" | "b < length h" "b \<noteq> a"
    by fastforce
  then show "?d b \<le> N \<and> (isLeaf (?h ! b) \<longleftrightarrow> ?d b = N) \<and> inRange (?h ! b)
               \<and> (\<forall>c \<in> set (links (?h ! b)). c < length ?h \<and> ?d c = Suc (?d b))"
  proof cases
    case 1
    with da new show ?thesis by (simp add: nth_append)
  next
    case 2
    from wf a have old: "d a \<le> N" "\<forall>c \<in> set (links (h ! a)). c < length h \<and> d c = Suc (d a)"
      by (auto simp: wellFormedHeap_def)
    from 2 a have "?h ! b = node'" by (simp add: nth_append)
    with 2 a n old da show ?thesis by auto
  next
    case 3
    with wf have old: "d b \<le> N" "isLeaf (h ! b) \<longleftrightarrow> d b = N" "inRange (h ! b)"
        "\<forall>c \<in> set (links (h ! b)). c < length h \<and> d c = Suc (d b)"
      by (auto simp: wellFormedHeap_def)
    from 3 have "?h ! b = h ! b" by (simp add: nth_append)
    with 3 old show ?thesis by auto
  qed
qed

lemma wellFormedHeap_root:
  assumes wf: "wellFormedHeap N d h" and new: "isLeaf new \<longleftrightarrow> 0 = N" "links new = []" "inRange new"
  shows "wellFormedHeap N (d(length h := 0)) (h @ [new])"
  unfolding wellFormedHeap_def
proof (intro allI impI)
  fix b
  let ?d = "d(length h := 0)" and ?h = "h @ [new]"
  assume "b < length ?h"
  then consider "b = length h" | "b < length h"
    by fastforce
  then show "?d b \<le> N \<and> (isLeaf (?h ! b) \<longleftrightarrow> ?d b = N) \<and> inRange (?h ! b)
               \<and> (\<forall>c \<in> set (links (?h ! b)). c < length ?h \<and> ?d c = Suc (?d b))"
  proof cases
    case 1
    with new show ?thesis by (simp add: nth_append)
  next
    case 2
    with wf have old: "d b \<le> N" "isLeaf (h ! b) \<longleftrightarrow> d b = N" "inRange (h ! b)"
        "\<forall>c \<in> set (links (h ! b)). c < length h \<and> d c = Suc (d b)"
      by (auto simp: wellFormedHeap_def)
    from 2 have "?h ! b = h ! b" by (simp add: nth_append)
    with 2 old show ?thesis by auto
  qed
qed

lemma keeps_refl: "keeps h h node"
  by (auto simp: keeps_def)

lemma keeps_step:
  assumes "a < length h" "\<not> isLeaf (h ! a)" "\<not> isLeaf node'"
  shows "keeps h (h[a := node'] @ [newMatchNode ty]) (length h)"
  using assms
  by (auto simp: keeps_def nth_append nth_list_update less_Suc_eq)

lemma keeps_root: "keeps h (h @ [newMatchNode ty]) (length h)"
  by (auto simp: keeps_def nth_append less_Suc_eq)

text \<open>One call of the closure, at depth \<open>i\<close>.\<close>

lemma callGetOrInsertNode_wf:
  fixes t :: "('f::{plus,minus,abs,ord}, 'v) MatchTree"
  assumes wf: "wellFormedHeap N d (heap t)"
    and rt: "\<forall>r. root t = Some r \<longrightarrow> r < length (heap t) \<and> d r = 0"
    and g: "case g of OfRoot \<Rightarrow> i = 0 | OfChild a p \<Rightarrow> a < length (heap t) \<and> Suc (d a) = i"
    and i: "i \<le> N" and ty: "(ty = MatchNone) = (i = N)"
  shows "\<exists>t' node d'. callGetOrInsertNode eps t g ty = Some (t', node)
           \<and> wellFormedHeap N d' (heap t')
           \<and> (\<forall>r. root t' = Some r \<longrightarrow> r < length (heap t') \<and> d' r = 0)
           \<and> node < length (heap t') \<and> d' node = i
           \<and> types t' = types t \<and> values t' = values t
           \<and> keeps (heap t) (heap t') node"
proof (cases g)
  case OfRoot
  with g have i0: "i = 0" by simp
  show ?thesis
  proof (cases "root t")
    case None
    let ?t' = "t\<lparr>root := Some (length (heap t)), heap := heap t @ [newMatchNode ty]\<rparr>"
    let ?d' = "d(length (heap t) := 0)"
    from ty i0 have "wellFormedHeap N ?d' (heap t @ [newMatchNode ty])"
      by (intro wellFormedHeap_root [OF wf]) auto
    with None OfRoot i0 keeps_root [of "heap t" ty] show ?thesis
      by (intro exI [of _ ?t'] exI [of _ "length (heap t)"] exI [of _ ?d']) simp
  next
    case (Some r)
    with OfRoot i0 wf rt keeps_refl [of "heap t" r] show ?thesis
      by (intro exI [of _ t] exI [of _ r] exI [of _ d]) simp
  qed
next
  case (OfChild a p)
  with g have a: "a < length (heap t)" and da: "Suc (d a) = i" by simp_all
  from wf a have old: "d a \<le> N" "isLeaf (heap t ! a) \<longleftrightarrow> d a = N" "inRange (heap t ! a)"
      "\<forall>c \<in> set (links (heap t ! a)). c < length (heap t) \<and> d c = Suc (d a)"
    by (auto simp: wellFormedHeap_def)
  from da i old have nl: "\<not> isLeaf (heap t ! a)" by auto
  from GetOrInsertChild_total [OF a nl old(3), of eps p ty]
  obtain h' c where get: "GetOrInsertChild eps (heap t) a p ty = Some (h', c)"
    by auto
  from GetOrInsertChild_effect [OF get]
  consider "h' = heap t" "c \<in> set (links (heap t ! a))"
    | node' where "h' = (heap t)[a := node'] @ [newMatchNode ty]" "c = length (heap t)" "\<not> isLeaf node'"
        "set (links node') = insert (length (heap t)) (set (links (heap t ! a)))" "inRange node'"
    using old(3) by blast
  then show ?thesis
  proof cases
    case 1
    with old da have "c < length (heap t)" "d c = i" by auto
    with 1 OfChild get wf rt keeps_refl [of "heap t" c] show ?thesis
      by (intro exI [of _ t] exI [of _ c] exI [of _ d]) simp
  next
    case 2
    let ?t' = "t\<lparr>heap := h'\<rparr>"
    let ?d' = "d(length (heap t) := Suc (d a))"
    from da i ty have "wellFormedHeap N ?d' ((heap t)[a := node'] @ [newMatchNode ty])"
      by (intro wellFormedHeap_step [OF wf a _ 2(3,4,5)]) auto
    moreover from rt have "\<forall>r. root ?t' = Some r \<longrightarrow> r < length (heap ?t') \<and> ?d' r = 0"
      using 2(1) by auto
    moreover have "keeps (heap t) h' c"
      using keeps_step [OF a nl 2(3), of ty] 2(1,2) by simp
    ultimately show ?thesis
      using 2(1,2) OfChild get da
      by (intro exI [of _ ?t'] exI [of _ c] exI [of _ ?d']) simp
  qed
qed

lemma resultsValid_keeps:
  assumes rv: "resultsValid V h" and k: "keeps h h' node"
    and new: "node < length h \<or> \<not> isLeaf (h' ! node)"
  shows "resultsValid V h'"
  unfolding resultsValid_def
proof (intro allI impI)
  fix a rs
  assume a: "a < length h'" and l: "h' ! a = matchNodeOfNone rs"
  show "rs \<noteq> [] \<and> (\<forall>r \<in> set rs. 0 \<le> ValueIndex r \<and> ValueIndex r < int V)"
  proof (cases "a < length h")
    case True
    with k have "if isLeaf (h ! a) then h' ! a = h ! a else \<not> isLeaf (h' ! a)"
      by (simp add: keeps_def)
    with l have "h ! a = matchNodeOfNone rs"
      by (auto split: if_splits)
    with rv True show ?thesis
      by (simp add: resultsValid_def)
  next
    case False
    with k a have "a = node" by (simp add: keeps_def)
    with new False l show ?thesis by simp
  qed
qed

lemma grows_keeps: "keeps h h' node \<Longrightarrow> grows res h h'"
  unfolding grows_def keeps_def
proof (intro conjI allI impI)
  fix a rs
  assume k: "length h \<le> length h' \<and>
       (\<forall>b<length h. if isLeaf (h ! b) then h' ! b = h ! b else \<not> isLeaf (h' ! b)) \<and>
       (\<forall>b. length h \<le> b \<and> b < length h' \<longrightarrow> b = node \<and> (isLeaf (h' ! b) \<longrightarrow> h' ! b = matchNodeOfNone []))"
    and a: "a < length h" and l: "h ! a = matchNodeOfNone rs"
  then have "h' ! a = matchNodeOfNone (rs @ replicate 0 res)" by auto
  then show "\<exists>k. h' ! a = matchNodeOfNone (rs @ replicate k res)" by blast
next
  fix a rs
  assume k: "length h \<le> length h' \<and>
       (\<forall>b<length h. if isLeaf (h ! b) then h' ! b = h ! b else \<not> isLeaf (h' ! b)) \<and>
       (\<forall>b. length h \<le> b \<and> b < length h' \<longrightarrow> b = node \<and> (isLeaf (h' ! b) \<longrightarrow> h' ! b = matchNodeOfNone []))"
    and a: "length h \<le> a \<and> a < length h' \<and> h' ! a = matchNodeOfNone rs"
  then have "rs = replicate 0 res" by auto
  then show "\<exists>k. rs = replicate k res" by blast
qed (auto split: if_splits)

lemma grows_old:
  "grows res h h' \<Longrightarrow> a < length h \<Longrightarrow> h ! a = matchNodeOfNone rs
     \<Longrightarrow> \<exists>k. h' ! a = matchNodeOfNone (rs @ replicate k res)"
  unfolding grows_def by blast

lemma grows_new:
  "grows res h h' \<Longrightarrow> length h \<le> a \<Longrightarrow> a < length h' \<Longrightarrow> h' ! a = matchNodeOfNone rs
     \<Longrightarrow> \<exists>k. rs = replicate k res"
  unfolding grows_def by blast

lemma grows_length: "grows res h h' \<Longrightarrow> length h \<le> length h'"
  unfolding grows_def by blast

lemma grows_isLeaf: "grows res h h' \<Longrightarrow> a < length h \<Longrightarrow> isLeaf (h' ! a) = isLeaf (h ! a)"
  unfolding grows_def by blast

lemma grows_refl: "grows res h h"
  unfolding grows_def
proof (intro conjI allI impI)
  fix a rs
  assume "h ! a = matchNodeOfNone rs"
  then have "h ! a = matchNodeOfNone (rs @ replicate 0 res)" by simp
  then show "\<exists>k. h ! a = matchNodeOfNone (rs @ replicate k res)" by blast
qed auto

lemma grows_trans:
  assumes 1: "grows res h1 h2" and 2: "grows res h2 h3"
  shows "grows res h1 h3"
  unfolding grows_def
proof (intro conjI allI impI)
  show "length h1 \<le> length h3"
    using grows_length [OF 1] grows_length [OF 2] by simp
next
  fix a
  assume a: "a < length h1"
  with grows_length [OF 1] have "a < length h2" by simp
  from grows_isLeaf [OF 1 a] grows_isLeaf [OF 2 this]
  show "isLeaf (h3 ! a) = isLeaf (h1 ! a)" by simp
next
  fix a rs
  assume a: "a < length h1" and l: "h1 ! a = matchNodeOfNone rs"
  from grows_old [OF 1 a l] obtain k where k: "h2 ! a = matchNodeOfNone (rs @ replicate k res)"
    by blast
  from a grows_length [OF 1] have "a < length h2" by simp
  from grows_old [OF 2 this k] obtain k' where "h3 ! a = matchNodeOfNone ((rs @ replicate k res) @ replicate k' res)"
    by blast
  then have "h3 ! a = matchNodeOfNone (rs @ replicate (k + k') res)"
    by (simp add: replicate_add)
  then show "\<exists>k. h3 ! a = matchNodeOfNone (rs @ replicate k res)" by blast
next
  fix a rs
  assume a: "length h1 \<le> a \<and> a < length h3 \<and> h3 ! a = matchNodeOfNone rs"
  show "\<exists>k. rs = replicate k res"
  proof (cases "a < length h2")
    case True
    from grows_isLeaf [OF 2 True] a have l2: "isLeaf (h2 ! a)" by simp
    then obtain rs2 where rs2: "h2 ! a = matchNodeOfNone rs2"
      by (cases "h2 ! a") auto
    from grows_new [OF 1 _ True rs2] a obtain k where k: "rs2 = replicate k res"
      by blast
    from grows_old [OF 2 True rs2] obtain k' where "h3 ! a = matchNodeOfNone (rs2 @ replicate k' res)"
      by blast
    with a k have "rs = replicate (k + k') res"
      by (simp add: replicate_add)
    then show ?thesis by blast
  next
    case False
    with grows_new [OF 2, of a rs] a show ?thesis
      by simp
  qed
qed

lemma doAddRuleLoop_wf:
  fixes t :: "('f::{plus,minus,abs,ord}, 'v) MatchTree"
  assumes "wellFormedHeap N d (heap t)"
    and "\<forall>r. root t = Some r \<longrightarrow> r < length (heap t) \<and> d r = 0"
    and "case g of OfRoot \<Rightarrow> i = 0 | OfChild a p \<Rightarrow> a < length (heap t) \<and> Suc (d a) = i"
    and "i + length ps = N" and "\<forall>p \<in> set ps. Type p \<noteq> MatchNone"
    and "resultsValid V (heap t)"
  shows "\<exists>t' g' d'. doAddRuleLoop eps t g ps = Some (t', g')
           \<and> wellFormedHeap N d' (heap t')
           \<and> (\<forall>r. root t' = Some r \<longrightarrow> r < length (heap t') \<and> d' r = 0)
           \<and> (case g' of OfRoot \<Rightarrow> N = 0 | OfChild a p \<Rightarrow> a < length (heap t') \<and> Suc (d' a) = N)
           \<and> types t' = types t \<and> values t' = values t
           \<and> resultsValid V (heap t') \<and> grows res (heap t) (heap t')"
  using assms
proof (induction ps arbitrary: t g i d)
  case Nil
  then show ?case
    using grows_refl [of res "heap t"]
    by (intro exI [of _ t] exI [of _ g] exI [of _ d]) (simp split: getOrInsertNode.splits)
next
  case (Cons p ps)
  from Cons.prems(4,5) have i: "i \<le> N" and ty: "(Type p = MatchNone) = (i = N)" and iN: "i < N"
    by auto
  from callGetOrInsertNode_wf [OF Cons.prems(1,2,3) i ty, of eps]
  obtain t1 node d1 where call: "callGetOrInsertNode eps t g (Type p) = Some (t1, node)"
    and wf1: "wellFormedHeap N d1 (heap t1)"
    and rt1: "\<forall>r. root t1 = Some r \<longrightarrow> r < length (heap t1) \<and> d1 r = 0"
    and node: "node < length (heap t1)" "d1 node = i"
    and same1: "types t1 = types t" "values t1 = values t"
    and k1: "keeps (heap t) (heap t1) node"
    by (elim exE conjE) (rule that; assumption)
  from wf1 node iN have "\<not> isLeaf (heap t1 ! node)"
    by (auto simp: wellFormedHeap_def)
  then have rv1: "resultsValid V (heap t1)"
    using resultsValid_keeps [OF Cons.prems(6) k1] by simp
  have g1: "case OfChild node p of OfRoot \<Rightarrow> Suc i = 0 | OfChild a p \<Rightarrow> a < length (heap t1) \<and> Suc (d1 a) = Suc i"
    using node by simp
  from Cons.prems(4,5) have rest: "Suc i + length ps = N" "\<forall>p \<in> set ps. Type p \<noteq> MatchNone"
    by auto
  from Cons.IH [OF wf1 rt1 g1 rest rv1]
  obtain t' g' d' where loop: "doAddRuleLoop eps t1 (OfChild node p) ps = Some (t', g')"
    and r: "wellFormedHeap N d' (heap t')"
      "\<forall>r. root t' = Some r \<longrightarrow> r < length (heap t') \<and> d' r = 0"
      "case g' of OfRoot \<Rightarrow> N = 0 | OfChild a p \<Rightarrow> a < length (heap t') \<and> Suc (d' a) = N"
      "types t' = types t1" "values t' = values t1" "resultsValid V (heap t')"
    and gr: "grows res (heap t1) (heap t')"
    by (elim exE conjE) (rule that; assumption)
  from grows_trans [OF grows_keeps [OF k1] gr] have "grows res (heap t) (heap t')" .
  with call loop r same1 show ?case
    by (intro exI [of _ t'] exI [of _ g'] exI [of _ d']) simp
qed

lemma wellFormedHeap_leaf_update:
  assumes wf: "wellFormedHeap N d h" and a: "a < length h" and l: "isLeaf (h ! a)"
  shows "wellFormedHeap N d (h[a := matchNodeOfNone rs])"
  unfolding wellFormedHeap_def
proof (intro allI impI)
  fix b
  assume "b < length (h[a := matchNodeOfNone rs])"
  then have b: "b < length h" by simp
  with wf have old: "d b \<le> N" "isLeaf (h ! b) \<longleftrightarrow> d b = N" "inRange (h ! b)"
      "\<forall>c \<in> set (links (h ! b)). c < length h \<and> d c = Suc (d b)"
    by (auto simp: wellFormedHeap_def)
  show "d b \<le> N \<and> (isLeaf (h[a := matchNodeOfNone rs] ! b) \<longleftrightarrow> d b = N)
          \<and> inRange (h[a := matchNodeOfNone rs] ! b)
          \<and> (\<forall>c \<in> set (links (h[a := matchNodeOfNone rs] ! b)).
                c < length (h[a := matchNodeOfNone rs]) \<and> d c = Suc (d b))"
  proof (cases "b = a")
    case True
    with a l old show ?thesis by simp
  next
    case False
    with old show ?thesis by simp
  qed
qed

lemma doAddRule_wf:
  fixes t :: "('f::{plus,minus,abs,ord}, 'v) MatchTree"
  assumes wf: "wellFormedHeap N d (heap t)"
    and rt: "\<forall>r. root t = Some r \<longrightarrow> r < length (heap t) \<and> d r = 0"
    and len: "length path = N" and tys: "\<forall>p \<in> set path. Type p \<noteq> MatchNone"
    and rv: "resultsValid V (heap t)" and vi: "0 \<le> vi" "vi < int V"
  shows "\<exists>t' d'. doAddRule eps t path vi pr = Some t'
           \<and> wellFormedHeap N d' (heap t')
           \<and> (\<forall>r. root t' = Some r \<longrightarrow> r < length (heap t') \<and> d' r = 0)
           \<and> types t' = types t \<and> values t' = values t
           \<and> resultsValid V (heap t')
           \<and> grows \<lparr>ValueIndex = vi, Priority_res = pr\<rparr> (heap t) (heap t')"
proof -
  let ?res = "\<lparr>ValueIndex = vi, Priority_res = pr\<rparr>"
  have g0: "case OfRoot of OfRoot \<Rightarrow> (0::nat) = 0 | OfChild a p \<Rightarrow> a < length (heap t) \<and> Suc (d a) = 0"
    by simp
  from len have l0: "0 + length path = N" by simp
  from doAddRuleLoop_wf [OF wf rt g0 l0 tys rv, of eps ?res]
  obtain t1 g1 d1 where loop: "doAddRuleLoop eps t OfRoot path = Some (t1, g1)"
    and wf1: "wellFormedHeap N d1 (heap t1)"
    and rt1: "\<forall>r. root t1 = Some r \<longrightarrow> r < length (heap t1) \<and> d1 r = 0"
    and g1: "case g1 of OfRoot \<Rightarrow> N = 0 | OfChild a p \<Rightarrow> a < length (heap t1) \<and> Suc (d1 a) = N"
    and same1: "types t1 = types t" "values t1 = values t"
    and rv1: "resultsValid V (heap t1)" and gr1: "grows ?res (heap t) (heap t1)"
    by (elim exE conjE) (rule that; assumption)
  have tyN: "(MatchNone = MatchNone) = (N = N)" by simp
  from callGetOrInsertNode_wf [OF wf1 rt1 g1 order_refl tyN, of eps]
  obtain t2 node d2 where call: "callGetOrInsertNode eps t1 g1 MatchNone = Some (t2, node)"
    and wf2: "wellFormedHeap N d2 (heap t2)"
    and rt2: "\<forall>r. root t2 = Some r \<longrightarrow> r < length (heap t2) \<and> d2 r = 0"
    and node: "node < length (heap t2)" "d2 node = N"
    and same2: "types t2 = types t1" "values t2 = values t1"
    and k2: "keeps (heap t1) (heap t2) node"
    by (elim exE conjE) (rule that; assumption)
  from wf2 node have leaf: "isLeaf (heap t2 ! node)"
    by (auto simp: wellFormedHeap_def)
  then obtain rs where rs: "heap t2 ! node = matchNodeOfNone rs"
    by (cases "heap t2 ! node") auto
  let ?h3 = "(heap t2)[node := matchNodeOfNone (rs @ [?res])]"
  let ?t3 = "t2\<lparr>heap := ?h3\<rparr>"
  from node rs have add: "AddResult (heap t2) node ?res = Some ?h3"
    by (simp add: AddResult_def)
  have wf3: "wellFormedHeap N d2 ?h3"
    using wellFormedHeap_leaf_update [OF wf2 node(1) leaf] .
  have rsv: "\<forall>r \<in> set rs. 0 \<le> ValueIndex r \<and> ValueIndex r < int V"
  proof (cases "node < length (heap t1)")
    case True
    with k2 have "if isLeaf (heap t1 ! node) then heap t2 ! node = heap t1 ! node else \<not> isLeaf (heap t2 ! node)"
      by (simp add: keeps_def)
    with leaf rs have "heap t1 ! node = matchNodeOfNone rs"
      by (auto split: if_splits)
    with rv1 True show ?thesis by (simp add: resultsValid_def)
  next
    case False
    with k2 node leaf have "heap t2 ! node = matchNodeOfNone []"
      by (simp add: keeps_def)
    with rs show ?thesis by simp
  qed
  have rv3: "resultsValid V ?h3"
    unfolding resultsValid_def
  proof (intro allI impI)
    fix a rs'
    assume a: "a < length ?h3" and l: "?h3 ! a = matchNodeOfNone rs'"
    show "rs' \<noteq> [] \<and> (\<forall>r \<in> set rs'. 0 \<le> ValueIndex r \<and> ValueIndex r < int V)"
    proof (cases "a = node")
      case True
      with a l have "rs' = rs @ [?res]" by simp
      with rsv vi show ?thesis by auto
    next
      case False
      with a l have l2: "heap t2 ! a = matchNodeOfNone rs'" and a2: "a < length (heap t2)" by simp_all
      show ?thesis
      proof (cases "a < length (heap t1)")
        case True
        with k2 have "if isLeaf (heap t1 ! a) then heap t2 ! a = heap t1 ! a else \<not> isLeaf (heap t2 ! a)"
          by (simp add: keeps_def)
        with l2 have "heap t1 ! a = matchNodeOfNone rs'"
          by (auto split: if_splits)
        with rv1 True show ?thesis by (simp add: resultsValid_def)
      next
        case notOld: False
        with k2 a2 have "a = node" by (simp add: keeps_def)
        with False show ?thesis by simp
      qed
    qed
  qed
  have gr3: "grows ?res (heap t2) ?h3"
    unfolding grows_def
  proof (intro conjI allI impI)
    fix a rs'
    assume a: "a < length (heap t2)" and l: "heap t2 ! a = matchNodeOfNone rs'"
    show "\<exists>k. ?h3 ! a = matchNodeOfNone (rs' @ replicate k ?res)"
    proof (cases "a = node")
      case True
      with a l rs have "?h3 ! a = matchNodeOfNone (rs' @ replicate 1 ?res)" by simp
      then show ?thesis by blast
    next
      case False
      with a l have "?h3 ! a = matchNodeOfNone (rs' @ replicate 0 ?res)" by simp
      then show ?thesis by blast
    qed
  next
    fix a
    assume "a < length (heap t2)"
    with leaf show "isLeaf (?h3 ! a) = isLeaf (heap t2 ! a)"
      by (cases "a = node") simp_all
  qed auto
  have gr: "grows ?res (heap t) ?h3"
    using grows_trans [OF gr1 grows_trans [OF grows_keeps [OF k2] gr3]] .
  have "doAddRule eps t path vi pr = Some ?t3"
    using loop call add by (simp add: doAddRule_def)
  with wf3 rt2 same1 same2 rv3 gr show ?thesis
    by (intro exI [of _ ?t3] exI [of _ d2]) simp
qed

lemma addPaths_wf:
  fixes t :: "('f::{plus,minus,abs,ord}, 'v) MatchTree"
  assumes "wellFormedHeap N d (heap t)"
    and "\<forall>r. root t = Some r \<longrightarrow> r < length (heap t) \<and> d r = 0"
    and "\<forall>path \<in> set paths. length path = N \<and> (\<forall>p \<in> set path. Type p \<noteq> MatchNone)"
    and "resultsValid V (heap t)" and "0 \<le> vi" "vi < int V"
  shows "\<exists>t' d'. addPaths eps vi pr t paths = Some t'
           \<and> wellFormedHeap N d' (heap t')
           \<and> (\<forall>r. root t' = Some r \<longrightarrow> r < length (heap t') \<and> d' r = 0)
           \<and> types t' = types t \<and> values t' = values t
           \<and> resultsValid V (heap t')
           \<and> grows \<lparr>ValueIndex = vi, Priority_res = pr\<rparr> (heap t) (heap t')"
  using assms
proof (induction paths arbitrary: t d)
  case Nil
  then show ?case
    using grows_refl [of "\<lparr>ValueIndex = vi, Priority_res = pr\<rparr>" "heap t"]
    by (intro exI [of _ t] exI [of _ d]) simp
next
  case (Cons path paths)
  let ?res = "\<lparr>ValueIndex = vi, Priority_res = pr\<rparr>"
  from Cons.prems(3) have len: "length path = N" and tys: "\<forall>p \<in> set path. Type p \<noteq> MatchNone"
    and rest: "\<forall>path \<in> set paths. length path = N \<and> (\<forall>p \<in> set path. Type p \<noteq> MatchNone)"
    by simp_all
  from doAddRule_wf [OF Cons.prems(1,2) len tys Cons.prems(4,5,6), of eps pr]
  obtain t1 d1 where do1: "doAddRule eps t path vi pr = Some t1"
    and wf1: "wellFormedHeap N d1 (heap t1)"
    and rt1: "\<forall>r. root t1 = Some r \<longrightarrow> r < length (heap t1) \<and> d1 r = 0"
    and same1: "types t1 = types t" "values t1 = values t"
    and rv1: "resultsValid V (heap t1)" and gr1: "grows ?res (heap t) (heap t1)"
    by (elim exE conjE) (rule that; assumption)
  from Cons.IH [OF wf1 rt1 rest rv1 Cons.prems(5,6)]
  obtain t' d' where r: "addPaths eps vi pr t1 paths = Some t'"
      "wellFormedHeap N d' (heap t')"
      "\<forall>r. root t' = Some r \<longrightarrow> r < length (heap t') \<and> d' r = 0"
      "types t' = types t1" "values t' = values t1" "resultsValid V (heap t')"
    and gr: "grows ?res (heap t1) (heap t')"
    by (elim exE conjE) (rule that; assumption)
  from grows_trans [OF gr1 gr] have "grows ?res (heap t) (heap t')" .
  with do1 r same1 show ?case
    by (intro exI [of _ t'] exI [of _ d']) simp
qed

lemma rounds_Type:
  assumes "rounds p = Some qs" and "q \<in> set qs"
  shows "Type q = Type p"
  using assms
  by (cases "Type p") (auto simp: rounds_def split: if_splits)

lemma product_paths_Type:
  "those (map rounds ps) = Some pss \<Longrightarrow> path \<in> set (product_lists pss) \<Longrightarrow> map Type path = map Type ps"
proof (induction ps arbitrary: pss path)
  case Nil
  then show ?case by simp
next
  case (Cons p ps)
  from Cons.prems(1) obtain qs pss' where r: "rounds p = Some qs" and t: "those (map rounds ps) = Some pss'"
    and p: "pss = qs # pss'"
    by (auto split: option.splits)
  from Cons.prems(2) p obtain q rest where "path = q # rest" "q \<in> set qs" "rest \<in> set (product_lists pss')"
    by auto
  with Cons.IH [OF t] rounds_Type [OF r] show ?case by simp
qed

lemma resultsValid_mono: "resultsValid V h \<Longrightarrow> resultsValid (Suc V) h"
  by (force simp: resultsValid_def)

lemma AddRule_wf:
  fixes t :: "('f::{plus,minus,abs,ord}, 'v) MatchTree"
  assumes wf: "wellFormed t"
  shows "\<exists>err t'. AddRule eps t rule = Some (err, t') \<and> wellFormed t' \<and> types t' = types t
           \<and> (err \<noteq> None \<longrightarrow> t' = t)
           \<and> (err = None \<longrightarrow> values t' = values t @ [Value rule]
                 \<and> grows \<lparr>ValueIndex = int (length (values t)), Priority_res = Priority rule\<rparr> (heap t) (heap t'))"
proof (cases "shapeMismatch (map Type (Patterns rule)) (types t)")
  case True
  with AddRule_error_iff [of eps t rule] obtain err t' where e: "AddRule eps t rule = Some (Some err, t')"
    by blast
  with AddRule_error_unchanged [OF e] wf show ?thesis
    by (intro exI [of _ "Some err"] exI [of _ t]) simp
next
  case False
  let ?N = "length (types t)" and ?vi = "int (length (values t))"
  let ?t1 = "t\<lparr>values := values t @ [Value rule]\<rparr>"
  let ?res = "\<lparr>ValueIndex = ?vi, Priority_res = Priority rule\<rparr>"
  from wf have ty: "MatchNone \<notin> set (types t)"
    and rv: "resultsValid (length (values t)) (heap t)"
    by (simp_all add: wellFormed_def)
  from wf obtain d where d: "wellFormedHeap ?N d (heap t)"
    "\<forall>r. root t = Some r \<longrightarrow> r < length (heap t) \<and> d r = 0"
    by (auto simp: wellFormed_def)
  from AddRule_addPaths [OF False ty, of eps] obtain pss
    where pss: "those (map rounds (map (clonePattern eps) (Patterns rule))) = Some pss"
      and add: "AddRule eps t rule =
                  map_option (Pair None) (addPaths eps ?vi (Priority rule) ?t1 (product_lists pss))"
    by blast
  have paths: "\<forall>path \<in> set (product_lists pss). length path = ?N \<and> (\<forall>p \<in> set path. Type p \<noteq> MatchNone)"
  proof
    fix path
    assume "path \<in> set (product_lists pss)"
    from product_paths_Type [OF pss this]
    have m: "map Type path = map Type (Patterns rule)"
      by (simp add: comp_def)
    from False have l: "length (Patterns rule) = ?N" by (simp add: shapeMismatch_def)
    from m have lp: "length path = length (Patterns rule)"
      by (metis length_map)
    have "\<forall>p \<in> set path. Type p \<noteq> MatchNone"
    proof
      fix p
      assume "p \<in> set path"
      then have "Type p \<in> set (map Type (Patterns rule))"
        using m by (metis image_eqI list.set_map)
      with shape_types [OF False ty] show "Type p \<noteq> MatchNone" by auto
    qed
    with lp l show "length path = ?N \<and> (\<forall>p \<in> set path. Type p \<noteq> MatchNone)" by simp
  qed
  have d1: "wellFormedHeap ?N d (heap ?t1)" "\<forall>r. root ?t1 = Some r \<longrightarrow> r < length (heap ?t1) \<and> d r = 0"
    using d by simp_all
  have rv1: "resultsValid (Suc (length (values t))) (heap ?t1)"
    using resultsValid_mono [OF rv] by simp
  have vi: "0 \<le> ?vi" "?vi < int (Suc (length (values t)))" by simp_all
  from addPaths_wf [OF d1 paths rv1 vi, of eps "Priority rule"]
  obtain t' d' where r: "addPaths eps ?vi (Priority rule) ?t1 (product_lists pss) = Some t'"
      "wellFormedHeap ?N d' (heap t')"
      "\<forall>r. root t' = Some r \<longrightarrow> r < length (heap t') \<and> d' r = 0"
      "types t' = types ?t1" "values t' = values ?t1" "resultsValid (Suc (length (values t))) (heap t')"
    and gr: "grows ?res (heap ?t1) (heap t')"
    by (elim exE conjE) (rule that; assumption)
  from r ty have "wellFormed t'"
    unfolding wellFormed_def by auto
  with add r gr show ?thesis
    by (intro exI [of _ None] exI [of _ t']) simp
qed

lemma NewMatchTree_wf: "NewMatchTree types1 = Some t \<Longrightarrow> wellFormed t"
  by (auto simp: NewMatchTree_def wellFormed_def wellFormedHeap_def resultsValid_def list_ex_iff
      split: if_splits)

lemma reachable_wellFormed: "reachable eps t \<Longrightarrow> wellFormed t"
proof (induction rule: reachable.induct)
  case (new types1 t)
  then show ?case by (rule NewMatchTree_wf)
next
  case (add t rule err t')
  from AddRule_wf [OF add.IH, of eps rule] add.hyps(2) show ?case by auto
qed

section \<open>What FindChildren yields\<close>

lemma mapLookup_set: "x \<in> set (mapLookup m k) \<Longrightarrow> (k, x) \<in> set m"
proof (cases "map_of m k")
  case None
  then show "x \<in> set (mapLookup m k) \<Longrightarrow> ?thesis" by (simp add: mapLookup_def)
next
  case (Some y)
  then show "x \<in> set (mapLookup m k) \<Longrightarrow> ?thesis"
    using map_of_SomeD [OF Some] by (simp add: mapLookup_def)
qed

lemma findChildrenIn_Some:
  assumes f: "findChildrenIn n exact excluding = Some cs"
  shows "cs = exact
            @ map (\<lambda>j. MatchNode (inverseChildren n ! j))
                (filter (\<lambda>j. j \<notin> set (concat excluding)) [0..<length (inverseChildren n)])
            @ (case anyChild n of None \<Rightarrow> [] | Some child \<Rightarrow> [child])"
proof (cases "1 \<le> length (inverseChildren n)")
  case True
  with f obtain rc where rc: "incRefCounts (replicate (length (inverseChildren n)) 0) (concat excluding) = Some rc"
    and cs: "cs = exact @ map (\<lambda>j. MatchNode (inverseChildren n ! j))
                (filter (\<lambda>j. \<not> 1 \<le> rc ! j) [0..<length rc])
              @ (case anyChild n of None \<Rightarrow> [] | Some child \<Rightarrow> [child])"
    by (auto simp: findChildrenIn_def split: option.splits)
  from incRefCounts_Some [OF rc]
  have len: "length rc = length (inverseChildren n)"
    and cnt: "\<forall>j < length (inverseChildren n). rc ! j = count_list (concat excluding) j"
    by simp_all
  have "filter (\<lambda>j. \<not> 1 \<le> rc ! j) [0..<length rc]
          = filter (\<lambda>j. j \<notin> set (concat excluding)) [0..<length (inverseChildren n)]"
    unfolding len
  proof (rule filter_cong [OF refl])
    fix j
    assume "j \<in> set [0..<length (inverseChildren n)]"
    with cnt have "rc ! j = count_list (concat excluding) j" by simp
    moreover have "(count_list (concat excluding) j = 0) = (j \<notin> set (concat excluding))"
      by (rule count_list_0_iff)
    ultimately show "(\<not> 1 \<le> rc ! j) = (j \<notin> set (concat excluding))"
      by (simp only: not_le less_one)
  qed
  with cs show ?thesis by simp
next
  case False
  then have "inverseChildren n = []" by (cases "inverseChildren n") auto
  with f show ?thesis
    by (auto simp: findChildrenIn_def split: option.splits)
qed

lemma findChildrenIn_total:
  assumes "\<forall>j \<in> set (concat excluding). j < length (inverseChildren n)"
  shows "findChildrenIn n exact excluding \<noteq> None"
proof -
  from assms incRefCounts_total [of "concat excluding" "replicate (length (inverseChildren n)) 0"]
  obtain rc where "incRefCounts (replicate (length (inverseChildren n)) 0) (concat excluding) = Some rc"
    by auto
  then show ?thesis
    by (simp add: findChildrenIn_def)
qed

lemma findChildrenIn_links:
  assumes f: "findChildrenIn n exact excluding = Some cs" and e: "set exact \<subseteq> snd ` set (children n)"
  shows "set cs \<subseteq> set (linksIn n)"
proof -
  have "set (map (\<lambda>j. MatchNode (inverseChildren n ! j))
          (filter (\<lambda>j. j \<notin> set (concat excluding)) [0..<length (inverseChildren n)]))
        \<subseteq> set (map MatchNode (inverseChildren n))"
    by auto
  with findChildrenIn_Some [OF f] e show ?thesis
    by (auto simp: linksIn_def split: option.splits)
qed

lemma FindChildren_wf:
  assumes a: "a < length h" and nl: "\<not> isLeaf (h ! a)" and r: "inRange (h ! a)"
  shows "\<exists>cs. FindChildren eps h a key = Some cs \<and> set cs \<subseteq> set (links (h ! a))"
proof (cases "h ! a")
  case (matchNodeOfNone rs)
  with nl show ?thesis by simp
next
  case (matchNodeOfString n)
  let ?ex = "mapLookup (inverseChildIndexes n) (String key)"
  from r matchNodeOfString have "\<forall>j \<in> set (concat ?ex). j < length (inverseChildren n)"
    by (fastforce simp: indexesInRange_def dest: mapLookup_set)
  from findChildrenIn_total [OF this, of "mapLookup (children n) (String key)"]
  obtain cs where cs: "findChildrenIn n (mapLookup (children n) (String key)) ?ex = Some cs"
    by auto
  have "set (mapLookup (children n) (String key)) \<subseteq> snd ` set (children n)"
    by (force dest: mapLookup_set)
  from findChildrenIn_links [OF cs this] cs a matchNodeOfString show ?thesis
    by (simp add: FindChildren_def)
next
  case (matchNodeOfInteger n)
  let ?ex = "mapLookup (inverseChildIndexes n) (Integer key)"
  from r matchNodeOfInteger have "\<forall>j \<in> set (concat ?ex). j < length (inverseChildren n)"
    by (fastforce simp: indexesInRange_def dest: mapLookup_set)
  from findChildrenIn_total [OF this, of "mapLookup (children n) (Integer key)"]
  obtain cs where cs: "findChildrenIn n (mapLookup (children n) (Integer key)) ?ex = Some cs"
    by auto
  have "set (mapLookup (children n) (Integer key)) \<subseteq> snd ` set (children n)"
    by (force dest: mapLookup_set)
  from findChildrenIn_links [OF cs this] cs a matchNodeOfInteger show ?thesis
    by (simp add: FindChildren_def)
next
  case (matchNodeOfIntegerInterval n)
  let ?exact = "map snd (filter (\<lambda>x. IntegerInterval_Contains (fst x) (Integer key)) (children n))"
  let ?ex = "map snd (filter (\<lambda>v. IntegerInterval_Contains (fst v) (Integer key)) (inverseChildIndexes n))"
  from r matchNodeOfIntegerInterval have "\<forall>j \<in> set (concat ?ex). j < length (inverseChildren n)"
    by (fastforce simp: indexesInRange_def)
  from findChildrenIn_total [OF this, of ?exact]
  obtain cs where cs: "findChildrenIn n ?exact ?ex = Some cs"
    by auto
  have "set ?exact \<subseteq> snd ` set (children n)"
    by auto
  from findChildrenIn_links [OF cs this] cs a matchNodeOfIntegerInterval show ?thesis
    by (simp add: FindChildren_def)
next
  case (matchNodeOfNumberInterval n)
  let ?exact = "map snd (filter (\<lambda>x. NumberInterval_Contains eps (fst x) (Number key)) (children n))"
  let ?ex = "map snd (filter (\<lambda>v. NumberInterval_Contains eps (fst v) (Number key)) (inverseChildIndexes n))"
  from r matchNodeOfNumberInterval have "\<forall>j \<in> set (concat ?ex). j < length (inverseChildren n)"
    by (fastforce simp: indexesInRange_def)
  from findChildrenIn_total [OF this, of ?exact]
  obtain cs where cs: "findChildrenIn n ?exact ?ex = Some cs"
    by auto
  have "set ?exact \<subseteq> snd ` set (children n)"
    by auto
  from findChildrenIn_links [OF cs this] cs a matchNodeOfNumberInterval show ?thesis
    by (simp add: FindChildren_def)
qed

section \<open>Search on a well-formed tree\<close>

lemma nextNodes_wf:
  assumes wf: "wellFormedHeap N d h" and i: "i < N"
    and ns: "\<forall>a \<in> set nodes. a < length h \<and> d a = i"
  shows "\<exists>nodes'. nextNodes eps h nodes key = Some nodes' \<and> (\<forall>a \<in> set nodes'. a < length h \<and> d a = Suc i)"
  using ns
proof (induction nodes)
  case Nil
  then show ?case by simp
next
  case (Cons a nodes)
  then have a: "a < length h" "d a = i" by simp_all
  with wf have old: "isLeaf (h ! a) \<longleftrightarrow> d a = N" "inRange (h ! a)"
      "\<forall>c \<in> set (links (h ! a)). c < length h \<and> d c = Suc (d a)"
    by (auto simp: wellFormedHeap_def)
  with a i have nl: "\<not> isLeaf (h ! a)" by simp
  from FindChildren_wf [OF a(1) nl old(2), of eps key]
  obtain cs where cs: "FindChildren eps h a key = Some cs" "set cs \<subseteq> set (links (h ! a))"
    by blast
  from Cons obtain rest where rest: "nextNodes eps h nodes key = Some rest"
    "\<forall>a \<in> set rest. a < length h \<and> d a = Suc i"
    by auto
  from cs old(3) a have "\<forall>c \<in> set cs. c < length h \<and> d c = Suc i" by auto
  with cs rest show ?case by auto
qed

lemma searchLoop_wf:
  assumes wf: "wellFormedHeap N d h" and i: "i + length keys = N"
    and ns: "\<forall>a \<in> set nodes. a < length h \<and> d a = i"
  shows "\<exists>nodes'. searchLoop eps h nodes keys = Some nodes' \<and> (\<forall>a \<in> set nodes'. a < length h \<and> d a = N)"
  using i ns
proof (induction keys arbitrary: nodes i)
  case Nil
  then show ?case by simp
next
  case (Cons key keys)
  then have "i < N" by simp
  from nextNodes_wf [OF wf this Cons.prems(2), of eps key]
  obtain nodes1 where n1: "nextNodes eps h nodes key = Some nodes1"
    "\<forall>a \<in> set nodes1. a < length h \<and> d a = Suc i"
    by blast
  from Cons.prems(1) have "Suc i + length keys = N" by simp
  from Cons.IH [OF this n1(2)] n1(1) show ?case by simp
qed

lemma set_sinkLeft: "set (sinkLeft cmp x ys) = insert x (set ys)"
  by (induction ys) auto

lemma set_insertionSortCmpFunc: "set (insertionSortCmpFunc cmp sortedRev data) = set sortedRev \<union> set data"
  by (induction data arbitrary: sortedRev) (auto simp: set_sinkLeft)

lemma mset_pdqsortLong: "mset (pdqsortLong cmp data) = mset data"
proof -
  have "\<forall>cmp data. mset ((\<lambda>cmp data. data) (cmp :: 'a \<Rightarrow> 'a \<Rightarrow> int) data) = mset (data :: 'a list)"
    by simp
  then have "\<forall>cmp data. mset (pdqsortLong (cmp :: 'a \<Rightarrow> 'a \<Rightarrow> int) data) = mset data"
    unfolding pdqsortLong_def by (rule someI [of "\<lambda>sort. \<forall>cmp data. mset (sort cmp data) = mset data"])
  then show ?thesis
    by blast
qed

lemma set_SortFunc: "set (SortFunc cmp data) = set data"
proof (cases "length data \<le> 12")
  case True
  then show ?thesis
    by (simp add: SortFunc_def set_insertionSortCmpFunc)
next
  case False
  from mset_pdqsortLong [of cmp data] have "set (pdqsortLong cmp data) = set data"
    by (rule mset_eq_setD)
  with False show ?thesis
    by (simp add: SortFunc_def)
qed

lemma set_dropRepeated: "set (dropRepeated l rs) \<subseteq> set rs"
  by (induction l rs rule: dropRepeated.induct) auto

lemma those_GetResults:
  assumes wf: "wellFormedHeap N d h" and ns: "\<forall>a \<in> set nodes. a < length h \<and> d a = N"
  shows "\<exists>rss. those (map (GetResults h) nodes) = Some rss \<and> length rss = length nodes
           \<and> (\<forall>rs \<in> set rss. \<exists>a < length h. h ! a = matchNodeOfNone rs)"
  using ns
proof (induction nodes)
  case Nil
  then show ?case by simp
next
  case (Cons a nodes)
  then have a: "a < length h" "d a = N" by simp_all
  with wf have "isLeaf (h ! a)" by (auto simp: wellFormedHeap_def)
  then obtain rs where rs: "h ! a = matchNodeOfNone rs" by (cases "h ! a") auto
  with a have g: "GetResults h a = Some rs" by (simp add: GetResults_def)
  from Cons obtain rss where "those (map (GetResults h) nodes) = Some rss" "length rss = length nodes"
    "\<forall>rs \<in> set rss. \<exists>a < length h. h ! a = matchNodeOfNone rs"
    by auto
  with g rs a show ?case by auto
qed

lemma those_total: "(\<forall>x \<in> set xs. f x \<noteq> None) \<Longrightarrow> \<exists>ys. those (map f xs) = Some ys"
  by (induction xs) auto

lemma extractValues_total:
  assumes rss: "those (map (GetResults (heap t)) nodes) = Some rss"
    and leaves: "\<forall>rs \<in> set rss. \<exists>a < length (heap t). heap t ! a = matchNodeOfNone rs"
    and rv: "resultsValid (length (values t)) (heap t)"
  shows "\<exists>vs. extractValues t nodes = Some vs"
proof -
  have valid: "\<forall>rs \<in> set rss. rs \<noteq> [] \<and> (\<forall>r \<in> set rs. valueAt t (ValueIndex r) \<noteq> None)"
    using leaves rv by (fastforce simp: resultsValid_def valueAt_def)
  show ?thesis
  proof (cases "sum_list (map length rss) = 1")
    case True
    then obtain rs0 rest where r0: "rss = rs0 # rest"
      by (cases rss) auto
    with valid obtain r rs' where r: "rs0 = r # rs'"
      by (cases rs0) auto
    with valid r0 obtain v where "valueAt t (ValueIndex r) = Some v"
      by auto
    with True rss r0 r show ?thesis
      by (simp add: extractValues_def)
  next
    case False
    let ?rs = "dropRepeated (- 1) (SortFunc compareResults (concat rss))"
    have "set ?rs \<subseteq> set (concat rss)"
      using set_dropRepeated [of "- 1" "SortFunc compareResults (concat rss)"]
      by (simp add: set_SortFunc)
    with valid have "\<forall>r \<in> set ?rs. valueAt t (ValueIndex r) \<noteq> None"
      by auto
    from those_total [OF this] False rss show ?thesis
      by (simp add: extractValues_def)
  qed
qed

lemma Search_total:
  fixes t :: "('f::{plus,minus,abs,ord}, 'v) MatchTree"
  assumes wf: "wellFormed t" and sh: "\<not> shapeMismatch (map Type_key keys) (types t)"
  shows "\<exists>vs. Search eps t keys = Some (Inr vs)"
proof -
  let ?N = "length (types t)"
  from wf obtain d where d: "wellFormedHeap ?N d (heap t)"
    "\<forall>r. root t = Some r \<longrightarrow> r < length (heap t) \<and> d r = 0"
    by (auto simp: wellFormed_def)
  from wf have rv: "resultsValid (length (values t)) (heap t)"
    by (simp add: wellFormed_def)
  let ?start = "case root t of None \<Rightarrow> [] | Some node \<Rightarrow> [node]"
  from d(2) have st: "\<forall>a \<in> set ?start. a < length (heap t) \<and> d a = 0"
    by (auto split: option.splits)
  from sh have "0 + length keys = ?N" by (simp add: shapeMismatch_def)
  from searchLoop_wf [OF d(1) this st, of eps]
  obtain nodes where nodes: "searchLoop eps (heap t) ?start keys = Some nodes"
    "\<forall>a \<in> set nodes. a < length (heap t) \<and> d a = ?N"
    by blast
  from those_GetResults [OF d(1) nodes(2)]
  obtain rss where rss: "those (map (GetResults (heap t)) nodes) = Some rss"
    "\<forall>rs \<in> set rss. \<exists>a < length (heap t). heap t ! a = matchNodeOfNone rs"
    by blast
  from extractValues_total [OF rss rv] obtain vs where "extractValues t nodes = Some vs"
    by blast
  with nodes(1) Search_valid [OF sh, of eps] show ?thesis
    by auto
qed

section \<open>Reuse of the inverse groups\<close>

lemma find_equiv:
  assumes "equivp equals" and "equals v w"
  shows "find (\<lambda>x. equals (fst x) v) indexes = find (\<lambda>x. equals (fst x) w) indexes"
proof -
  from assms have "\<And>k. equals k v = equals k w"
    by (metis equivp_def)
  then show ?thesis by simp
qed

lemma lookupIndexes_appendIndex:
  assumes e: "equivp equals"
  shows "lookupIndexes equals (appendIndex equals indexes v m) w
           = (if equals v w then lookupIndexes equals indexes w @ [m] else lookupIndexes equals indexes w)"
proof (induction indexes)
  case Nil
  then show ?case by (simp add: lookupIndexes_def)
next
  case (Cons x indexes)
  show ?case
  proof (cases "equals (fst x) v")
    case True
    with e have "equals (fst x) w = equals v w"
      by (metis equivp_def)
    with True show ?thesis by (simp add: lookupIndexes_def)
  next
    case False
    show ?thesis
    proof (cases "equals (fst x) w")
      case True
      with False e have "\<not> equals v w"
        by (metis equivp_def)
      with True False show ?thesis by (simp add: lookupIndexes_def)
    next
      case notw: False
      with False Cons.IH show ?thesis by (simp add: lookupIndexes_def)
    qed
  qed
qed

lemma lookupIndexes_addIndexes:
  assumes e: "equivp equals"
  shows "lookupIndexes equals (addIndexes equals indexes vs m) w
           = lookupIndexes equals indexes w @ replicate (length (filter (\<lambda>v. equals v w) vs)) m"
proof (induction vs arbitrary: indexes)
  case Nil
  then show ?case by simp
next
  case (Cons v vs)
  show ?case
    by (simp add: Cons.IH lookupIndexes_appendIndex [OF e] replicate_app_Cons_same)
qed

lemma count_list_concat: "count_list (concat xss) j = sum_list (map (\<lambda>xs. count_list xs j) xss)"
  by (induction xss) auto

lemma count_list_replicate: "count_list (replicate k m) j = (if j = m then k else 0)"
  by (induction k) auto

lemma find_append_list:
  "find P (xs @ ys) = (case find P xs of None \<Rightarrow> find P ys | Some x \<Rightarrow> Some x)"
  by (induction xs) auto

lemma sum_list_Suc: "(\<forall>x \<in> set xs. f x = 0) \<Longrightarrow> sum_list (map (\<lambda>x. Suc (f x)) xs) = length xs"
  by (induction xs) auto

lemma cloneLoop_different:
  "sorted_wrt (\<lambda>x y. \<not> equals y x) clone \<Longrightarrow> sorted_wrt (\<lambda>x y. \<not> equals y x) (cloneLoop equals clone s)"
proof (induction s arbitrary: clone)
  case Nil
  then show ?case by simp
next
  case (Cons v s)
  show ?case
  proof (cases "list_ex (equals v) clone")
    case True
    with Cons show ?thesis by simp
  next
    case False
    then have "\<forall>x \<in> set clone. \<not> equals v x" by (simp add: list_ex_iff)
    with Cons.prems have "sorted_wrt (\<lambda>x y. \<not> equals y x) (clone @ [v])"
      by (simp add: sorted_wrt_append)
    from Cons.IH [OF this] False show ?thesis by simp
  qed
qed

lemma one_equal:
  assumes e: "equivp equals" and d: "sorted_wrt (\<lambda>x y. \<not> equals y x) vs" and w: "w \<in> set vs"
  shows "length (filter (\<lambda>v. equals v w) vs) = 1"
  using d w
proof (induction vs)
  case Nil
  then show ?case by simp
next
  case (Cons x xs)
  from Cons.prems(1) have later: "\<forall>y \<in> set xs. \<not> equals y x" and d': "sorted_wrt (\<lambda>x y. \<not> equals y x) xs"
    by simp_all
  show ?case
  proof (cases "equals x w")
    case True
    have "filter (\<lambda>v. equals v w) xs = []"
    proof (rule filter_False, rule ballI)
      fix y
      assume "y \<in> set xs"
      with later have "\<not> equals y x" by simp
      with True e show "\<not> equals y w" by (metis equivp_def)
    qed
    with True show ?thesis by simp
  next
    case False
    with e have "w \<noteq> x" by (metis equivp_reflp)
    with Cons.prems(2) have "w \<in> set xs" by simp
    from Cons.IH [OF d' this] False show ?thesis by simp
  qed
qed

text \<open>After a new group \<open>m\<close> was registered for the values \<open>vs\<close>.\<close>

lemma lookups_created:
  assumes e: "equivp equals" and d: "sorted_wrt (\<lambda>x y. \<not> equals y x) vs"
  shows "map (lookupIndexes equals (addIndexes equals indexes vs m)) vs
           = map (\<lambda>w. lookupIndexes equals indexes w @ [m]) vs"
proof (rule map_cong [OF refl])
  fix w
  assume "w \<in> set vs"
  from one_equal [OF e d this] lookupIndexes_addIndexes [OF e, of indexes vs m w]
  show "lookupIndexes equals (addIndexes equals indexes vs m) w = lookupIndexes equals indexes w @ [m]"
    by simp
qed

lemma firstReusable_created:
  assumes none: "firstReusable gs ls = None"
    and r: "\<forall>j \<in> set (concat ls). j < length gs"
  shows "firstReusable (gs @ [\<lparr>MatchNode = c, MaxRefCount = length ls\<rparr>]) (map (\<lambda>l. l @ [length gs]) ls)
           = Some (length gs)"
proof -
  let ?m = "length gs" and ?ls' = "map (\<lambda>l. l @ [length gs]) ls"
  let ?gs' = "gs @ [\<lparr>MatchNode = c, MaxRefCount = length ls\<rparr>]"
  let ?P = "\<lambda>gs ls j. count_list (concat ls) j = length ls \<and> MaxRefCount (gs ! j) = length ls"
  have old: "count_list (concat ?ls') j = count_list (concat ls) j" if "j \<noteq> ?m" for j
    using that by (simp add: count_list_concat comp_def)
  have "\<forall>l \<in> set ls. count_list l ?m = 0"
    using r by (fastforce simp: count_list_0_iff)
  then have new: "count_list (concat ?ls') ?m = length ls"
    by (simp add: count_list_concat comp_def sum_list_Suc)
  from none have "\<forall>j \<in> set [0..<?m]. \<not> ?P gs ls j"
    by (simp add: firstReusable_def find_None_iff)
  then have "\<forall>j \<in> set [0..<?m]. \<not> ?P ?gs' ?ls' j"
    using old by (simp add: nth_append)
  then have "find (?P ?gs' ?ls') [0..<?m] = None"
    by (simp add: find_None_iff)
  moreover have "?P ?gs' ?ls' ?m"
    using new by simp
  ultimately show ?thesis
    by (simp add: firstReusable_def find_append_list)
qed

lemma firstReusable_kept:
  assumes some: "firstReusable gs ls = Some j"
    and len: "length ls' = length ls"
    and ext: "\<forall>i < length ls. \<exists>k. ls' ! i = ls ! i @ replicate k (length gs)"
  shows "firstReusable (gs @ [g]) ls' = Some j"
proof -
  let ?m = "length gs"
  let ?P = "\<lambda>gs ls j. count_list (concat ls) j = length ls \<and> MaxRefCount (gs ! j) = length ls"
  have old: "count_list (concat ls') j = count_list (concat ls) j" if "j \<noteq> ?m" for j
  proof -
    have "map (\<lambda>l. count_list l j) ls' = map (\<lambda>l. count_list l j) ls"
    proof (rule nth_equalityI)
      show "length (map (\<lambda>l. count_list l j) ls') = length (map (\<lambda>l. count_list l j) ls)"
        using len by simp
    next
      fix i
      assume "i < length (map (\<lambda>l. count_list l j) ls')"
      then have i: "i < length ls" using len by simp
      with ext obtain k where "ls' ! i = ls ! i @ replicate k ?m" by blast
      with i len that show "map (\<lambda>l. count_list l j) ls' ! i = map (\<lambda>l. count_list l j) ls ! i"
        by (simp add: count_list_replicate)
    qed
    then show ?thesis by (simp add: count_list_concat)
  qed
  have "find (?P (gs @ [g]) ls') [0..<?m] = find (?P gs ls) [0..<?m]"
  proof (rule find_cong [OF refl])
    fix j
    assume "j \<in> set [0..<?m]"
    then have "j < ?m" by simp
    with old [of j] len show "?P (gs @ [g]) ls' j = ?P gs ls j"
      by (simp add: nth_append)
  qed
  with some show ?thesis
    by (simp add: firstReusable_def find_append_list)
qed

lemma incRefCounts_None:
  "\<not> (\<forall>j \<in> set js. j < length rc) \<Longrightarrow> incRefCounts rc js = None"
  using incRefCounts_Some [of rc js] by (cases "incRefCounts rc js") auto

lemma inverse_branch:
  assumes f: "\<not> isAny" "isInverse"
  shows "getOrInsertChildIn equals n isAny isInverse vs cur new =
           (if \<forall>j \<in> set (concat (map (lookupIndexes equals (inverseChildIndexes n)) vs)). j < length (inverseChildren n)
            then (case firstReusable (inverseChildren n) (map (lookupIndexes equals (inverseChildIndexes n)) vs) of
                    Some j \<Rightarrow> Some (n, MatchNode (inverseChildren n ! j), False)
                  | None \<Rightarrow>
                      Some (registerIn equals n vs new, new, True))
            else None)"
proof -
  let ?gs = "inverseChildren n" and ?ls = "map (lookupIndexes equals (inverseChildIndexes n)) vs"
  show ?thesis
  proof (cases "\<forall>j \<in> set (concat ?ls). j < length ?gs")
    case False
    then have "countRefs equals (inverseChildIndexes n) vs (replicate (length ?gs) 0) = None"
      by (simp add: countRefs_incRefCounts incRefCounts_None)
    with f have "getOrInsertChildIn equals n isAny isInverse vs cur new = None"
      by (simp add: getOrInsertChildIn_def)
    then show ?thesis
      unfolding if_not_P [OF False] .
  next
    case True
    from countRefs_total [of "inverseChildIndexes n" "length ?gs" equals vs] True
    have "\<exists>rc. incRefCounts (replicate (length ?gs) 0) (concat ?ls) = Some rc"
      using incRefCounts_total [of "concat ?ls" "replicate (length ?gs) 0"] by simp
    then obtain rc where rc: "countRefs equals (inverseChildIndexes n) vs (replicate (length ?gs) 0) = Some rc"
      by (auto simp: countRefs_incRefCounts)
    from countRefs_Some [OF rc] have len: "length rc = length ?gs"
      and cnt: "\<forall>j < length ?gs. rc ! j = count_list (concat ?ls) j"
      by (simp_all add: refCount_def)
    have "find (\<lambda>j. rc ! j = length vs \<and> MaxRefCount (?gs ! j) = length vs) [0..<length rc]
            = firstReusable ?gs ?ls"
      unfolding firstReusable_def len
    proof (rule find_cong [OF refl])
      fix j
      assume "j \<in> set [0..<length ?gs]"
      with cnt show "(rc ! j = length vs \<and> MaxRefCount (?gs ! j) = length vs)
              = (count_list (concat ?ls) j = length ?ls \<and> MaxRefCount (?gs ! j) = length ?ls)"
        by simp
    qed
    with f rc have "getOrInsertChildIn equals n isAny isInverse vs cur new =
        (case firstReusable ?gs ?ls of
           Some j \<Rightarrow> Some (n, MatchNode (?gs ! j), False)
         | None \<Rightarrow>
             Some (registerIn equals n vs new, new, True))"
      by (simp add: getOrInsertChildIn_def Let_def registerIn_def split: option.splits)
    then show ?thesis
      unfolding if_P [OF True] .
  qed
qed

text \<open>What a call that is no inverse insertion does to the inverse groups: nothing.\<close>

lemma other_branches:
  assumes "getOrInsertChildIn equals n isAny isInverse vs cur new = Some (n', c, created)"
    and "isAny \<or> \<not> isInverse"
  shows "inverseChildren n' = inverseChildren n \<and> inverseChildIndexes n' = inverseChildIndexes n"
  using assms
  by (auto simp: getOrInsertChildIn_def split: if_splits option.splits)

lemma equivp_IntegerInterval_Equals: "equivp IntegerInterval_Equals"
proof (rule equivpI)
  show "reflp IntegerInterval_Equals"
    by (rule reflpI) (auto simp: IntegerInterval_Equals_def split: option.splits)
  show "symp IntegerInterval_Equals"
    by (rule sympI) (auto simp: IntegerInterval_Equals_def split: option.splits if_splits)
  show "transp IntegerInterval_Equals"
    by (rule transpI) (auto simp: IntegerInterval_Equals_def split: option.splits if_splits)
qed

lemma equivp_eq: "equivp (=)"
  by (rule identity_equivp)

lemma storeChild_inverse:
  "map_option (storeChild h a ty mk)
     (if r then (case fr of Some j \<Rightarrow> Some (n, MatchNode (gs ! j), False) | None \<Rightarrow> Some (n', length h, True))
      else None)
   = (if r then (case fr of Some j \<Rightarrow> Some (h, MatchNode (gs ! j))
                 | None \<Rightarrow> Some (h[a := mk n'] @ [newMatchNode ty], length h))
      else None)"
  by (simp add: storeChild_def split: option.splits)

lemma inverse_branch_registerIn:
  "getOrInsertChildIn equals n False True vs cur new =
     (if \<forall>j \<in> set (concat (map (lookupIndexes equals (inverseChildIndexes n)) vs)). j < length (inverseChildren n)
      then (case firstReusable (inverseChildren n) (map (lookupIndexes equals (inverseChildIndexes n)) vs) of
              Some j \<Rightarrow> Some (n, MatchNode (inverseChildren n ! j), False)
            | None \<Rightarrow> Some (registerIn equals n vs new, new, True))
      else None)"
  using inverse_branch [of False True equals n vs cur new] by simp

text \<open>\<^verbatim>\<open>GetOrInsertChild\<close> with an inverse pattern.\<close>

lemma GetOrInsertChild_inverse:
  assumes p: "IsInverse p" "\<not> IsAny p" and a: "a < length h"
  shows "GetOrInsertChild eps h a p ty =
           (if \<not> isLeaf (h ! a) \<and> (\<forall>i \<in> set (concat (lookups eps (h ! a) p)). i < length (groups (h ! a)))
            then (case firstReusable (groups (h ! a)) (lookups eps (h ! a) p) of
                    Some j \<Rightarrow> Some (h, MatchNode (groups (h ! a) ! j))
                  | None \<Rightarrow> Some (h[a := registerGroup eps (h ! a) p (length h)] @ [newMatchNode ty], length h))
            else None)"
proof (cases "h ! a")
  case (matchNodeOfNone rs)
  with a show ?thesis by (simp add: GetOrInsertChild_def)
next
  case (matchNodeOfString n)
  with a p have "GetOrInsertChild eps h a p ty =
      map_option (storeChild h a ty matchNodeOfString)
        (getOrInsertChildIn (=) n False True (Strings p) (currentString p) (length h))"
    by (simp add: GetOrInsertChild_def)
  also have "\<dots> =
      (if \<forall>j \<in> set (concat (map (lookupIndexes (=) (inverseChildIndexes n)) (Strings p))). j < length (inverseChildren n)
       then (case firstReusable (inverseChildren n) (map (lookupIndexes (=) (inverseChildIndexes n)) (Strings p)) of
               Some j \<Rightarrow> Some (h, MatchNode (inverseChildren n ! j))
             | None \<Rightarrow> Some (h[a := matchNodeOfString (registerIn (=) n (Strings p) (length h))] @ [newMatchNode ty], length h))
       else None)"
    unfolding inverse_branch_registerIn by (rule storeChild_inverse)
  finally show ?thesis
    using matchNodeOfString by (simp split: option.splits)
next
  case (matchNodeOfInteger n)
  with a p have "GetOrInsertChild eps h a p ty =
      map_option (storeChild h a ty matchNodeOfInteger)
        (getOrInsertChildIn (=) n False True (Integers p) (currentInteger p) (length h))"
    by (simp add: GetOrInsertChild_def)
  also have "\<dots> =
      (if \<forall>j \<in> set (concat (map (lookupIndexes (=) (inverseChildIndexes n)) (Integers p))). j < length (inverseChildren n)
       then (case firstReusable (inverseChildren n) (map (lookupIndexes (=) (inverseChildIndexes n)) (Integers p)) of
               Some j \<Rightarrow> Some (h, MatchNode (inverseChildren n ! j))
             | None \<Rightarrow> Some (h[a := matchNodeOfInteger (registerIn (=) n (Integers p) (length h))] @ [newMatchNode ty], length h))
       else None)"
    unfolding inverse_branch_registerIn by (rule storeChild_inverse)
  finally show ?thesis
    using matchNodeOfInteger by (simp split: option.splits)
next
  case (matchNodeOfIntegerInterval n)
  with a p have "GetOrInsertChild eps h a p ty =
      map_option (storeChild h a ty matchNodeOfIntegerInterval)
        (getOrInsertChildIn IntegerInterval_Equals n False True (IntegerIntervals p) (currentIntegerInterval p) (length h))"
    by (simp add: GetOrInsertChild_def)
  also have "\<dots> =
      (if \<forall>j \<in> set (concat (map (lookupIndexes IntegerInterval_Equals (inverseChildIndexes n)) (IntegerIntervals p))). j < length (inverseChildren n)
       then (case firstReusable (inverseChildren n) (map (lookupIndexes IntegerInterval_Equals (inverseChildIndexes n)) (IntegerIntervals p)) of
               Some j \<Rightarrow> Some (h, MatchNode (inverseChildren n ! j))
             | None \<Rightarrow> Some (h[a := matchNodeOfIntegerInterval (registerIn IntegerInterval_Equals n (IntegerIntervals p) (length h))] @ [newMatchNode ty], length h))
       else None)"
    unfolding inverse_branch_registerIn by (rule storeChild_inverse)
  finally show ?thesis
    using matchNodeOfIntegerInterval by (simp split: option.splits)
next
  case (matchNodeOfNumberInterval n)
  with a p have "GetOrInsertChild eps h a p ty =
      map_option (storeChild h a ty matchNodeOfNumberInterval)
        (getOrInsertChildIn (NumberInterval_Equals eps) n False True (NumberIntervals p) (currentNumberInterval p) (length h))"
    by (simp add: GetOrInsertChild_def)
  also have "\<dots> =
      (if \<forall>j \<in> set (concat (map (lookupIndexes (NumberInterval_Equals eps) (inverseChildIndexes n)) (NumberIntervals p))). j < length (inverseChildren n)
       then (case firstReusable (inverseChildren n) (map (lookupIndexes (NumberInterval_Equals eps) (inverseChildIndexes n)) (NumberIntervals p)) of
               Some j \<Rightarrow> Some (h, MatchNode (inverseChildren n ! j))
             | None \<Rightarrow> Some (h[a := matchNodeOfNumberInterval (registerIn (NumberInterval_Equals eps) n (NumberIntervals p) (length h))] @ [newMatchNode ty], length h))
       else None)"
    unfolding inverse_branch_registerIn by (rule storeChild_inverse)
  finally show ?thesis
    using matchNodeOfNumberInterval by (simp split: option.splits)
qed

lemma exactKind_cases:
  assumes "exactKind node"
  obtains n where "node = matchNodeOfString n"
  | n where "node = matchNodeOfInteger n"
  | n where "node = matchNodeOfIntegerInterval n"
  using assms by (cases node) (auto simp: exactKind_def)

lemma exactKind_not_leaf: "exactKind node \<Longrightarrow> \<not> isLeaf node"
  by (cases node) (auto simp: exactKind_def)

lemma groups_registerGroup:
  "\<not> isLeaf node \<Longrightarrow>
     groups (registerGroup eps node p new)
       = groups node @ [\<lparr>MatchNode = new, MaxRefCount = length (lookups eps node p)\<rparr>]"
  by (cases node) (auto simp: registerIn_def)

lemma exactKind_registerGroup: "exactKind (registerGroup eps node p new) = exactKind node"
  by (cases node) (auto simp: exactKind_def)

lemma lookups_registerGroup_same:
  assumes k: "exactKind node" and d: "deduplicated p"
  shows "lookups eps (registerGroup eps node p new) p
           = map (\<lambda>l. l @ [length (groups node)]) (lookups eps node p)"
  using k
proof (cases rule: exactKind_cases)
  case (1 n)
  from d have "sorted_wrt (\<lambda>x y. \<not> y = x) (Strings p)" by (simp add: deduplicated_def)
  from lookups_created [OF equivp_eq this] 1 show ?thesis
    by (simp add: registerIn_def comp_def)
next
  case (2 n)
  from d have "sorted_wrt (\<lambda>x y. \<not> y = x) (Integers p)" by (simp add: deduplicated_def)
  from lookups_created [OF equivp_eq this] 2 show ?thesis
    by (simp add: registerIn_def comp_def)
next
  case (3 n)
  from d have "sorted_wrt (\<lambda>x y. \<not> IntegerInterval_Equals y x) (IntegerIntervals p)"
    by (simp add: deduplicated_def)
  from lookups_created [OF equivp_IntegerInterval_Equals this] 3 show ?thesis
    by (simp add: registerIn_def comp_def)
qed

lemma lookups_registerGroup_other:
  assumes k: "exactKind node"
  shows "length (lookups eps (registerGroup eps node q new) p) = length (lookups eps node p)
         \<and> (\<forall>i < length (lookups eps node p).
               \<exists>k. lookups eps (registerGroup eps node q new) p ! i
                      = lookups eps node p ! i @ replicate k (length (groups node)))"
  using k
proof (cases rule: exactKind_cases)
  case (1 n)
  then show ?thesis
    by (auto simp: registerIn_def lookupIndexes_addIndexes [OF equivp_eq])
next
  case (2 n)
  then show ?thesis
    by (auto simp: registerIn_def lookupIndexes_addIndexes [OF equivp_eq])
next
  case (3 n)
  then show ?thesis
    by (auto simp: registerIn_def lookupIndexes_addIndexes [OF equivp_IntegerInterval_Equals])
qed

text \<open>A call that is no inverse insertion leaves the groups and the reverse index
  of its node as they are.\<close>

lemma storeChild_other:
  assumes g: "getOrInsertChildIn equals n isAny isInverse vs cur (length h) = Some r"
    and s: "storeChild h a ty mk r = (h', c)"
    and f: "isAny \<or> \<not> isInverse"
  shows "h' = h \<or> (\<exists>n'. h' = h[a := mk n'] @ [newMatchNode ty]
                     \<and> inverseChildren n' = inverseChildren n \<and> inverseChildIndexes n' = inverseChildIndexes n)"
proof -
  obtain n' c' created where r: "r = (n', c', created)"
    by (cases r) auto
  from other_branches [OF g [unfolded r] f] s r show ?thesis
    by (cases created) (auto simp: storeChild_def)
qed

lemma GetOrInsertChild_other:
  assumes get: "GetOrInsertChild eps h b q ty = Some (h', c)" and f: "IsAny q \<or> \<not> IsInverse q"
  shows "h' = h \<or> (\<exists>node'. h' = h[b := node'] @ [newMatchNode ty]
                      \<and> groups node' = groups (h ! b) \<and> (\<forall>p. lookups eps node' p = lookups eps (h ! b) p)
                      \<and> exactKind node' = exactKind (h ! b))"
proof -
  from get have b: "b < length h"
    by (auto simp: GetOrInsertChild_def split: if_splits)
  show ?thesis
  proof (cases "h ! b")
    case (matchNodeOfNone rs)
    with get b show ?thesis by (simp add: GetOrInsertChild_def)
  next
    case (matchNodeOfString n)
    with get b obtain r where
      "getOrInsertChildIn (=) n (IsAny q) (IsInverse q) (Strings q) (currentString q) (length h) = Some r"
      "storeChild h b ty matchNodeOfString r = (h', c)"
      by (auto simp: GetOrInsertChild_def)
    from storeChild_other [OF this f] matchNodeOfString show ?thesis
      by (auto simp: exactKind_def)
  next
    case (matchNodeOfInteger n)
    with get b obtain r where
      "getOrInsertChildIn (=) n (IsAny q) (IsInverse q) (Integers q) (currentInteger q) (length h) = Some r"
      "storeChild h b ty matchNodeOfInteger r = (h', c)"
      by (auto simp: GetOrInsertChild_def)
    from storeChild_other [OF this f] matchNodeOfInteger show ?thesis
      by (auto simp: exactKind_def)
  next
    case (matchNodeOfIntegerInterval n)
    with get b obtain r where
      "getOrInsertChildIn IntegerInterval_Equals n (IsAny q) (IsInverse q) (IntegerIntervals q)
         (currentIntegerInterval q) (length h) = Some r"
      "storeChild h b ty matchNodeOfIntegerInterval r = (h', c)"
      by (auto simp: GetOrInsertChild_def)
    from storeChild_other [OF this f] matchNodeOfIntegerInterval show ?thesis
      by (auto simp: exactKind_def)
  next
    case (matchNodeOfNumberInterval n)
    with get b obtain r where
      "getOrInsertChildIn (NumberInterval_Equals eps) n (IsAny q) (IsInverse q) (NumberIntervals q)
         (currentNumberInterval q) (length h) = Some r"
      "storeChild h b ty matchNodeOfNumberInterval r = (h', c)"
      by (auto simp: GetOrInsertChild_def)
    from storeChild_other [OF this f] matchNodeOfNumberInterval show ?thesis
      by (auto simp: exactKind_def)
  qed
qed

lemma reuses_elsewhere:
  assumes r: "reuses eps h a p c" and l: "length h \<le> length h'" and s: "h' ! a = h ! a"
  shows "reuses eps h' a p c"
  using assms by (auto simp: reuses_def)

lemma reuses_registered:
  assumes r: "reuses eps h a p c"
  shows "reuses eps (h[a := registerGroup eps (h ! a) q new] @ [node]) a p c"
proof -
  let ?n = "h ! a" and ?n' = "registerGroup eps (h ! a) q new"
  from r have a: "a < length h" and k: "exactKind ?n"
    and inr: "\<forall>i \<in> set (concat (lookups eps ?n p)). i < length (groups ?n)"
    by (simp_all add: reuses_def)
  from r obtain j where j: "firstReusable (groups ?n) (lookups eps ?n p) = Some j"
    and c: "MatchNode (groups ?n ! j) = c"
    by (auto simp: reuses_def)
  from lookups_registerGroup_other [OF k, of eps q new p]
  have len: "length (lookups eps ?n' p) = length (lookups eps ?n p)"
    and ext: "\<forall>i < length (lookups eps ?n p).
                \<exists>k. lookups eps ?n' p ! i = lookups eps ?n p ! i @ replicate k (length (groups ?n))"
    by simp_all
  have gs: "groups ?n' = groups ?n @ [\<lparr>MatchNode = new, MaxRefCount = length (lookups eps ?n q)\<rparr>]"
    using groups_registerGroup [OF exactKind_not_leaf [OF k]] .
  from firstReusable_kept [OF j len ext] gs
  have j': "firstReusable (groups ?n') (lookups eps ?n' p) = Some j"
    by simp
  from j have "j < length (groups ?n)"
    using find_Some_set [of _ "[0..<length (groups ?n)]" j] by (simp add: firstReusable_def)
  with c gs have c': "MatchNode (groups ?n' ! j) = c"
    by (simp add: nth_append)
  have inr': "\<forall>i \<in> set (concat (lookups eps ?n' p)). i < length (groups ?n')"
  proof
    fix i
    assume "i \<in> set (concat (lookups eps ?n' p))"
    then obtain l where l: "l \<in> set (lookups eps ?n' p)" and il: "i \<in> set l"
      by auto
    from l obtain m where m: "m < length (lookups eps ?n' p)" and lm: "lookups eps ?n' p ! m = l"
      by (auto simp: in_set_conv_nth)
    from il lm have i: "i \<in> set (lookups eps ?n' p ! m)"
      by simp
    from m len ext obtain k where "lookups eps ?n' p ! m = lookups eps ?n p ! m @ replicate k (length (groups ?n))"
      by auto
    with i have "i \<in> set (lookups eps ?n p ! m) \<or> i = length (groups ?n)"
      by (auto split: if_splits)
    with inr m len gs show "i < length (groups ?n')"
      by (auto simp: less_Suc_eq)
  qed
  from a k j' c' inr' show ?thesis
    by (simp add: reuses_def nth_append exactKind_registerGroup)
qed

lemma reuses_GetOrInsertChild:
  assumes r: "reuses eps h a p c" and get: "GetOrInsertChild eps h b q ty = Some (h', c')"
  shows "reuses eps h' a p c"
proof -
  from r have a: "a < length h" and k: "exactKind (h ! a)"
    by (simp_all add: reuses_def)
  from get have b: "b < length h"
    by (auto simp: GetOrInsertChild_def split: if_splits)
  show ?thesis
  proof (cases "b = a")
    case False
    from GetOrInsertChild_effect [OF get]
    have "h' = h \<or> (\<exists>node'. h' = h[b := node'] @ [newMatchNode ty])"
      by blast
    with False a have "length h \<le> length h'" "h' ! a = h ! a"
      by (auto simp: nth_append)
    with r show ?thesis by (rule reuses_elsewhere)
  next
    case True
    show ?thesis
    proof (cases "IsInverse q \<and> \<not> IsAny q")
      case inv: True
      with GetOrInsertChild_inverse [of q a h eps ty] a get True
      have "h' = h \<or> h' = h[a := registerGroup eps (h ! a) q (length h)] @ [newMatchNode ty]"
        by (auto split: if_splits option.splits)
      with r reuses_registered [OF r] show ?thesis by auto
    next
      case False
      then have "IsAny q \<or> \<not> IsInverse q" by blast
      from GetOrInsertChild_other [OF get this] True
      consider "h' = h"
        | node' where "h' = h[a := node'] @ [newMatchNode ty]" "groups node' = groups (h ! a)"
            "\<forall>p. lookups eps node' p = lookups eps (h ! a) p" "exactKind node' = exactKind (h ! a)"
        by blast
      then show ?thesis
      proof cases
        case 1
        with r show ?thesis by simp
      next
        case 2
        with r a show ?thesis
          by (simp add: reuses_def nth_append)
      qed
    qed
  qed
qed

lemma reuses_AddResult:
  assumes r: "reuses eps h a p c" and add: "AddResult h b res = Some h'"
  shows "reuses eps h' a p c"
proof -
  from AddResult_effect [OF add] obtain rs where b: "b < length h" "h ! b = matchNodeOfNone rs"
    and h': "h' = h[b := matchNodeOfNone (rs @ [res])]"
    by blast
  from r have "exactKind (h ! a)" by (simp add: reuses_def)
  with b have "a \<noteq> b" by (auto simp: exactKind_def)
  with h' have "length h \<le> length h'" "h' ! a = h ! a" by simp_all
  with r show ?thesis by (rule reuses_elsewhere)
qed

lemma reuses_later:
  assumes "later eps h1 h2" and "reuses eps h1 a p c"
  shows "reuses eps h2 a p c"
  using assms
proof (induction rule: later.induct)
  case now
  then show ?case .
next
  case (child h b q ty h' c')
  from reuses_GetOrInsertChild [OF child.IH [OF child.prems] child.hyps(2)] show ?case .
next
  case (result h b res h')
  from reuses_AddResult [OF result.IH [OF result.prems] result.hyps(2)] show ?case .
next
  case (node h ty)
  from node.IH [OF node.prems] have r: "reuses eps h a p c" .
  then have "a < length h" by (simp add: reuses_def)
  then have "length h \<le> length (h @ [newMatchNode ty])" "(h @ [newMatchNode ty]) ! a = h ! a"
    by (simp_all add: nth_append)
  with r show ?case by (rule reuses_elsewhere)
qed

lemma firstReusable_Some_iff:
  "firstReusable gs ls = Some j \<longleftrightarrow>
     j < length gs \<and> count_list (concat ls) j = length ls \<and> MaxRefCount (gs ! j) = length ls
     \<and> (\<forall>i < j. \<not> (count_list (concat ls) i = length ls \<and> MaxRefCount (gs ! i) = length ls))"
  unfolding firstReusable_def find_Some_iff
  by auto

lemma firstReusable_None_iff:
  "firstReusable gs ls = None \<longleftrightarrow>
     (\<forall>j < length gs. \<not> (count_list (concat ls) j = length ls \<and> MaxRefCount (gs ! j) = length ls))"
  unfolding firstReusable_def find_None_iff
  by auto

lemma firstReusable_mset:
  assumes "mset ls = mset ls'"
  shows "firstReusable gs ls = firstReusable gs ls'"
proof -
  from assms have "length ls = length ls'"
    by (rule mset_eq_length)
  moreover have "count_list (concat ls) j = count_list (concat ls') j" for j
  proof -
    have "sum_list (map (\<lambda>l. count_list l j) ls) = sum_mset (image_mset (\<lambda>l. count_list l j) (mset ls))"
      by (simp add: sum_mset_sum_list [symmetric])
    also have "\<dots> = sum_mset (image_mset (\<lambda>l. count_list l j) (mset ls'))"
      using assms by simp
    also have "\<dots> = sum_list (map (\<lambda>l. count_list l j) ls')"
      by (simp add: sum_mset_sum_list [symmetric])
    finally show ?thesis by (simp add: count_list_concat)
  qed
  ultimately show ?thesis
    by (simp add: firstReusable_def)
qed

lemma lookups_sameExclusions:
  assumes "sameExclusions p q" and "exactKind node"
  shows "mset (lookups eps node p) = mset (lookups eps node q)"
  using assms(2)
proof (cases rule: exactKind_cases)
  case (1 n)
  from assms(1) have "mset (Strings p) = mset (Strings q)" by (simp add: sameExclusions_def)
  then have "image_mset (lookupIndexes (=) (inverseChildIndexes n)) (mset (Strings p))
               = image_mset (lookupIndexes (=) (inverseChildIndexes n)) (mset (Strings q))"
    by simp
  with 1 show ?thesis by simp
next
  case (2 n)
  from assms(1) have "mset (Integers p) = mset (Integers q)" by (simp add: sameExclusions_def)
  then have "image_mset (lookupIndexes (=) (inverseChildIndexes n)) (mset (Integers p))
               = image_mset (lookupIndexes (=) (inverseChildIndexes n)) (mset (Integers q))"
    by simp
  with 2 show ?thesis by simp
next
  case (3 n)
  from assms(1) have "mset (IntegerIntervals p) = mset (IntegerIntervals q)" by (simp add: sameExclusions_def)
  then have "image_mset (lookupIndexes IntegerInterval_Equals (inverseChildIndexes n)) (mset (IntegerIntervals p))
               = image_mset (lookupIndexes IntegerInterval_Equals (inverseChildIndexes n)) (mset (IntegerIntervals q))"
    by simp
  with 3 show ?thesis by simp
qed

lemma reuses_same:
  assumes r: "reuses eps h a p c" and s: "sameExclusions p q"
  shows "reuses eps h a q c"
proof -
  from r have k: "exactKind (h ! a)" by (simp add: reuses_def)
  from lookups_sameExclusions [OF s k, of eps]
  have m: "mset (lookups eps (h ! a) p) = mset (lookups eps (h ! a) q)" .
  then have "set (lookups eps (h ! a) p) = set (lookups eps (h ! a) q)"
    by (rule mset_eq_setD)
  then have c: "set (concat (lookups eps (h ! a) p)) = set (concat (lookups eps (h ! a) q))"
    by simp
  from r have a: "a < length h"
    and inr: "\<forall>i \<in> set (concat (lookups eps (h ! a) p)). i < length (groups (h ! a))"
    by (simp_all add: reuses_def)
  from r obtain j where j: "firstReusable (groups (h ! a)) (lookups eps (h ! a) p) = Some j"
    and cj: "MatchNode (groups (h ! a) ! j) = c"
    by (auto simp: reuses_def)
  have inr': "\<forall>i \<in> set (concat (lookups eps (h ! a) q)). i < length (groups (h ! a))"
    using inr unfolding c .
  from j firstReusable_mset [OF m, of "groups (h ! a)"]
  have j': "firstReusable (groups (h ! a)) (lookups eps (h ! a) q) = Some j"
    by simp
  show ?thesis
    unfolding reuses_def using a k inr' j' cj by blast
qed

lemma reuses_result:
  assumes r: "reuses eps h a q c" and q: "IsInverse q" "\<not> IsAny q"
  shows "GetOrInsertChild eps h a q ty = Some (h, c)"
proof -
  from r have a: "a < length h" and k: "exactKind (h ! a)"
    and inr: "\<forall>i \<in> set (concat (lookups eps (h ! a) q)). i < length (groups (h ! a))"
    by (simp_all add: reuses_def)
  from r obtain j where "firstReusable (groups (h ! a)) (lookups eps (h ! a) q) = Some j"
    "MatchNode (groups (h ! a) ! j) = c"
    by (auto simp: reuses_def)
  with GetOrInsertChild_inverse [OF q a, of eps ty] inr exactKind_not_leaf [OF k] show ?thesis
    by simp
qed

lemma reuses_established:
  assumes p: "IsInverse p" "\<not> IsAny p" and d: "deduplicated p" and k: "exactKind (h ! a)"
    and get: "GetOrInsertChild eps h a p ty = Some (h1, c)"
  shows "reuses eps h1 a p c"
proof -
  let ?n = "h ! a" and ?n' = "registerGroup eps (h ! a) p (length h)"
  from get have a: "a < length h"
    by (auto simp: GetOrInsertChild_def split: if_splits)
  from get GetOrInsertChild_inverse [OF p a, of eps ty]
  have inr: "\<forall>i \<in> set (concat (lookups eps ?n p)). i < length (groups ?n)"
    by (auto split: if_splits)
  show ?thesis
  proof (cases "firstReusable (groups ?n) (lookups eps ?n p)")
    case (Some j)
    with get GetOrInsertChild_inverse [OF p a, of eps ty] inr exactKind_not_leaf [OF k]
    have "h1 = h" "c = MatchNode (groups ?n ! j)"
      by auto
    with a k inr Some show ?thesis
      by (simp add: reuses_def)
  next
    case None
    with get GetOrInsertChild_inverse [OF p a, of eps ty] inr exactKind_not_leaf [OF k]
    have h1: "h1 = h[a := ?n'] @ [newMatchNode ty]" and c: "c = length h"
      by auto
    have gs: "groups ?n' = groups ?n @ [\<lparr>MatchNode = length h, MaxRefCount = length (lookups eps ?n p)\<rparr>]"
      using groups_registerGroup [OF exactKind_not_leaf [OF k]] .
    have ls: "lookups eps ?n' p = map (\<lambda>l. l @ [length (groups ?n)]) (lookups eps ?n p)"
      using lookups_registerGroup_same [OF k d] .
    from firstReusable_created [OF None inr, of "length h"] gs ls
    have fr: "firstReusable (groups ?n') (lookups eps ?n' p) = Some (length (groups ?n))"
      by simp
    have inr': "\<forall>i \<in> set (concat (lookups eps ?n' p)). i < length (groups ?n')"
      using inr by (auto simp: ls gs less_Suc_eq)
    from a k fr inr' gs c h1 show ?thesis
      by (simp add: reuses_def nth_append exactKind_registerGroup)
  qed
qed

lemma deduplicated_clonePattern: "deduplicated (clonePattern eps p)"
  using cloneLoop_different [of "(=)" "[]" "Strings p"]
    cloneLoop_different [of "(=)" "[]" "Integers p"]
    cloneLoop_different [of IntegerInterval_Equals "[]" "IntegerIntervals p"]
  by (simp add: deduplicated_def clonePattern_def cloneStrings_def cloneIntegers_def cloneIntegerIntervals_def)

section \<open>Properties of every tree a program can hold\<close>

lemma reachable_treeAB12: "reachable (0::int) treeAB12"
proof -
  have "NewMatchTree [MatchString, MatchInteger] = Some emptyStringInteger"
    by code_simp
  then have "reachable (0::int) emptyStringInteger"
    by (rule reachable.new)
  moreover have "AddRule 0 emptyStringInteger ruleAB12 = Some (None, treeAB12)"
    by code_simp
  ultimately show ?thesis
    by (rule reachable.add)
qed

lemma GetResults_Some:
  "GetResults h a = Some rs \<Longrightarrow> a < length h \<and> h ! a = matchNodeOfNone rs"
  by (auto simp: GetResults_def split: if_splits matchNode.splits)

lemma those_GetResults_leaves:
  "those (map (GetResults h) nodes) = Some rss \<Longrightarrow>
     length rss = length nodes \<and> (\<forall>rs \<in> set rss. \<exists>a < length h. h ! a = matchNodeOfNone rs)"
proof (induction nodes arbitrary: rss)
  case Nil
  then show ?case by simp
next
  case (Cons a nodes)
  from Cons.prems obtain rs rest where rs: "GetResults h a = Some rs"
    and rest: "those (map (GetResults h) nodes) = Some rest" and rss: "rss = rs # rest"
    by (auto split: option.splits)
  from Cons.IH [OF rest] GetResults_Some [OF rs] rss show ?case
    by auto
qed

lemma length_le_sum_list:
  "(\<forall>x \<in> set xs. 1 \<le> f x) \<Longrightarrow> length xs \<le> sum_list (map f xs)"
  by (induction xs) auto

lemma single_result:
  assumes rss: "those (map (GetResults (heap t)) nodes) = Some rss"
    and one: "sum_list (map length rss) = 1"
    and rv: "resultsValid (length (values t)) (heap t)"
  shows "length nodes = 1 \<and> (\<exists>r. rss = [[r]] \<and> extractValues t nodes = Some [values t ! nat (ValueIndex r)])"
proof -
  from those_GetResults_leaves [OF rss]
  have len: "length rss = length nodes"
    and leaves: "\<forall>rs \<in> set rss. \<exists>a < length (heap t). heap t ! a = matchNodeOfNone rs"
    by simp_all
  with rv have ne: "\<forall>rs \<in> set rss. rs \<noteq> [] \<and> (\<forall>r \<in> set rs. 0 \<le> ValueIndex r \<and> ValueIndex r < int (length (values t)))"
    by (fastforce simp: resultsValid_def)
  then have "\<forall>rs \<in> set rss. 1 \<le> length rs"
    by (simp add: Suc_le_eq)
  from length_le_sum_list [OF this] one have "length rss \<le> 1" by simp
  moreover from one have "rss \<noteq> []" by auto
  ultimately obtain rs0 where r0: "rss = [rs0]"
    by (cases rss) auto
  with one have "length rs0 = 1" by simp
  then obtain r where r: "rs0 = [r]"
    by (cases rs0) auto
  from ne r0 r have "0 \<le> ValueIndex r \<and> ValueIndex r < int (length (values t))" by simp
  then have "valueAt t (ValueIndex r) = Some (values t ! nat (ValueIndex r))"
    by (simp add: valueAt_def)
  with rss r0 r have "extractValues t nodes = Some [values t ! nat (ValueIndex r)]"
    by (simp add: extractValues_def)
  with len r0 r show ?thesis by simp
qed

text \<open>
  A search with keys of the right shape in a tree without a root (a
  new tree, or one no rule has put a path into) returns the empty list and no
  error, and so does a search whose walk ends with no node, in any tree. In
  every tree a program can hold, a search with keys of the right shape returns
  a list of values: it neither fails nor panics.
\<close>

lemma Search_nothing_reached:
  "\<not> shapeMismatch (map Type_key keys) (types t) \<longrightarrow>
     (NewMatchTree types1 = Some t \<longrightarrow> Search eps t keys = Some (Inr []))
     \<and> (root t = None \<longrightarrow> Search eps t keys = Some (Inr []))
     \<and> (searchLoop eps (heap t) (case root t of None \<Rightarrow> [] | Some node \<Rightarrow> [node]) keys = Some []
          \<longrightarrow> Search eps t keys = Some (Inr []))
     \<and> (reachable eps t \<longrightarrow> (\<exists>vs. Search eps t keys = Some (Inr vs)))"
proof
  assume sh: "\<not> shapeMismatch (map Type_key keys) (types t)"
  have none: "root t = None \<longrightarrow> Search eps t keys = Some (Inr [])"
    using Search_valid [OF sh, of eps] by (simp add: searchLoop_Nil)
  moreover have "NewMatchTree types1 = Some t \<longrightarrow> Search eps t keys = Some (Inr [])"
    using none NewMatchTree_root [of types1 t] by simp
  moreover have "searchLoop eps (heap t) (case root t of None \<Rightarrow> [] | Some node \<Rightarrow> [node]) keys = Some []
          \<longrightarrow> Search eps t keys = Some (Inr [])"
    using Search_valid [OF sh, of eps] by simp
  moreover have "reachable eps t \<longrightarrow> (\<exists>vs. Search eps t keys = Some (Inr vs))"
    using Search_total [OF reachable_wellFormed sh] by blast
  ultimately show "(NewMatchTree types1 = Some t \<longrightarrow> Search eps t keys = Some (Inr []))
     \<and> (root t = None \<longrightarrow> Search eps t keys = Some (Inr []))
     \<and> (searchLoop eps (heap t) (case root t of None \<Rightarrow> [] | Some node \<Rightarrow> [node]) keys = Some []
          \<longrightarrow> Search eps t keys = Some (Inr []))
     \<and> (reachable eps t \<longrightarrow> (\<exists>vs. Search eps t keys = Some (Inr vs)))"
    by (intro conjI)
qed

text \<open>
  Claim C9. In every tree a program can hold, each result of each terminal node
  carries a value index that is at least 0 and less than the length of the
  value table. Every call of \<^verbatim>\<open>AddRule\<close> on such a tree returns; with an error it
  leaves the tree as it was, and without one it appends the rule's value to the
  table and changes the terminal nodes only by appending results whose value
  index is the length the table had before, an index no earlier result
  carries. \<^verbatim>\<open>Search\<close> changes nothing.
\<close>

theorem value_indexes_valid:
  "reachable eps t \<longrightarrow>
     (\<forall>a < length (heap t). \<forall>rs. heap t ! a = matchNodeOfNone rs \<longrightarrow>
        (\<forall>r \<in> set rs. 0 \<le> ValueIndex r \<and> ValueIndex r < int (length (values t))))
     \<and> (\<forall>rule. \<exists>err t'. AddRule eps t rule = Some (err, t')
           \<and> (err \<noteq> None \<longrightarrow> t' = t)
           \<and> (err = None \<longrightarrow> values t' = values t @ [Value rule]
                 \<and> grows \<lparr>ValueIndex = int (length (values t)), Priority_res = Priority rule\<rparr>
                      (heap t) (heap t')))"
proof
  assume "reachable eps t"
  then have wf: "wellFormed t"
    by (rule reachable_wellFormed)
  then have "\<forall>a < length (heap t). \<forall>rs. heap t ! a = matchNodeOfNone rs \<longrightarrow>
        (\<forall>r \<in> set rs. 0 \<le> ValueIndex r \<and> ValueIndex r < int (length (values t)))"
    by (simp add: wellFormed_def resultsValid_def)
  moreover have "\<forall>rule. \<exists>err t'. AddRule eps t rule = Some (err, t')
           \<and> (err \<noteq> None \<longrightarrow> t' = t)
           \<and> (err = None \<longrightarrow> values t' = values t @ [Value rule]
                 \<and> grows \<lparr>ValueIndex = int (length (values t)), Priority_res = Priority rule\<rparr>
                      (heap t) (heap t'))"
    using AddRule_wf [OF wf, of eps] by blast
  ultimately show "(\<forall>a < length (heap t). \<forall>rs. heap t ! a = matchNodeOfNone rs \<longrightarrow>
        (\<forall>r \<in> set rs. 0 \<le> ValueIndex r \<and> ValueIndex r < int (length (values t))))
     \<and> (\<forall>rule. \<exists>err t'. AddRule eps t rule = Some (err, t')
           \<and> (err \<noteq> None \<longrightarrow> t' = t)
           \<and> (err = None \<longrightarrow> values t' = values t @ [Value rule]
                 \<and> grows \<lparr>ValueIndex = int (length (values t)), Priority_res = Priority rule\<rparr>
                      (heap t) (heap t')))"
    by (intro conjI)
qed

theorem value_indexes_valid_witness:
  "reachable (0::int) treeAB12
   \<and> heap treeAB12 ! 2 = matchNodeOfNone [\<lparr>ValueIndex = 0, Priority_res = 0\<rparr>]
   \<and> (0::int) < int (length (values treeAB12))
   \<and> (\<exists>t'. AddRule 0 treeAB12 ruleAB12 = Some (None, t')
         \<and> values t' = values treeAB12 @ [Value ruleAB12])"
proof -
  have a: "heap treeAB12 ! 2 = matchNodeOfNone [\<lparr>ValueIndex = 0, Priority_res = 0\<rparr>]"
    by (simp add: treeAB12_def)
  have b: "2 < length (heap treeAB12)"
    by (simp add: treeAB12_def)
  from value_indexes_valid [of "0::int" treeAB12] reachable_treeAB12
  have v: "\<forall>a < length (heap treeAB12). \<forall>rs. heap treeAB12 ! a = matchNodeOfNone rs \<longrightarrow>
        (\<forall>r \<in> set rs. 0 \<le> ValueIndex r \<and> ValueIndex r < int (length (values treeAB12)))"
    and "\<exists>err t'. AddRule 0 treeAB12 ruleAB12 = Some (err, t')
           \<and> (err \<noteq> None \<longrightarrow> t' = treeAB12)
           \<and> (err = None \<longrightarrow> values t' = values treeAB12 @ [Value ruleAB12]
                 \<and> grows \<lparr>ValueIndex = int (length (values treeAB12)), Priority_res = Priority ruleAB12\<rparr>
                      (heap treeAB12) (heap t'))"
    by blast+
  then obtain err t' where add: "AddRule 0 treeAB12 ruleAB12 = Some (err, t')"
    and ok: "err = None \<longrightarrow> values t' = values treeAB12 @ [Value ruleAB12]"
    by blast
  have "\<not> shapeMismatch (map Type (Patterns ruleAB12)) (types treeAB12)"
    by (simp add: shapeMismatch_def treeAB12_def ruleAB12_def ruleOf_def MatchPattern0_def less_Suc_eq)
  with AddRule_error_iff [of "0::int" treeAB12 ruleAB12] add have "err = None"
    by (cases err) auto
  with add ok have c: "\<exists>t'. AddRule 0 treeAB12 ruleAB12 = Some (None, t')
         \<and> values t' = values treeAB12 @ [Value ruleAB12]"
    by auto
  from v a b have d: "(0::int) < int (length (values treeAB12))"
    by force
  from reachable_treeAB12 a d c show ?thesis
    by (intro conjI)
qed

text \<open>
  Claim C10. In every tree a program can hold, each terminal node holds at
  least one result. So a list of terminal nodes whose results number exactly
  one is a list of one node with one result, and \<^verbatim>\<open>extractValues\<close>, which then
  reads the first result of the first node, returns the one value and does not
  panic.
\<close>

theorem terminal_nodes_nonempty:
  "reachable eps t \<longrightarrow>
     (\<forall>a < length (heap t). \<forall>rs. heap t ! a = matchNodeOfNone rs \<longrightarrow> rs \<noteq> [])
     \<and> (\<forall>nodes rss. those (map (GetResults (heap t)) nodes) = Some rss \<and> sum_list (map length rss) = 1
          \<longrightarrow> length nodes = 1
              \<and> (\<exists>r. rss = [[r]] \<and> extractValues t nodes = Some [values t ! nat (ValueIndex r)]))"
proof
  assume "reachable eps t"
  then have "wellFormed t"
    by (rule reachable_wellFormed)
  then have rv: "resultsValid (length (values t)) (heap t)"
    by (simp add: wellFormed_def)
  then have "\<forall>a < length (heap t). \<forall>rs. heap t ! a = matchNodeOfNone rs \<longrightarrow> rs \<noteq> []"
    by (simp add: resultsValid_def)
  moreover have "\<forall>nodes rss. those (map (GetResults (heap t)) nodes) = Some rss \<and> sum_list (map length rss) = 1
          \<longrightarrow> length nodes = 1
              \<and> (\<exists>r. rss = [[r]] \<and> extractValues t nodes = Some [values t ! nat (ValueIndex r)])"
    using single_result [OF _ _ rv] by blast
  ultimately show "(\<forall>a < length (heap t). \<forall>rs. heap t ! a = matchNodeOfNone rs \<longrightarrow> rs \<noteq> [])
     \<and> (\<forall>nodes rss. those (map (GetResults (heap t)) nodes) = Some rss \<and> sum_list (map length rss) = 1
          \<longrightarrow> length nodes = 1
              \<and> (\<exists>r. rss = [[r]] \<and> extractValues t nodes = Some [values t ! nat (ValueIndex r)]))"
    by (intro conjI)
qed

theorem terminal_nodes_nonempty_witness:
  "reachable (0::int) treeAB12
   \<and> those (map (GetResults (heap treeAB12)) [2]) = Some [[\<lparr>ValueIndex = 0, Priority_res = 0\<rparr>]]
   \<and> sum_list (map length [[\<lparr>ValueIndex = 0, Priority_res = 0\<rparr>]]) = 1
   \<and> length [2::nat] = 1
   \<and> (\<exists>r. [[\<lparr>ValueIndex = 0, Priority_res = 0\<rparr>]] = [[r]]
         \<and> extractValues treeAB12 [2] = Some [values treeAB12 ! nat (ValueIndex r)])"
proof -
  have a: "those (map (GetResults (heap treeAB12)) [2]) = Some [[\<lparr>ValueIndex = 0, Priority_res = 0\<rparr>]]"
    by (simp add: treeAB12_def GetResults_def)
  have b: "sum_list (map length [[\<lparr>ValueIndex = 0, Priority_res = 0\<rparr>]]) = 1"
    by simp
  from terminal_nodes_nonempty [of "0::int" treeAB12] reachable_treeAB12 a b
  have "\<exists>r. [[\<lparr>ValueIndex = 0, Priority_res = 0\<rparr>]] = [[r]]
         \<and> extractValues treeAB12 [2] = Some [values treeAB12 ! nat (ValueIndex r)]"
    by blast
  with reachable_treeAB12 a b show ?thesis
    by simp
qed

text \<open>
  With an inverse pattern \<^verbatim>\<open>GetOrInsertChild\<close> looks up, for each value of
  the exclusion set, the index list of the reverse index, and reuses the child
  of a group exactly if there is a group that these lists name as often as the
  set has values and whose recorded size is that number too; it takes the
  first such group, and otherwise registers a new group with a new child. For
  string, integer and integer interval nodes and a deduplicated exclusion set
  (as the cloning of \<^verbatim>\<open>AddRule\<close> makes it), once an insertion of the set has
  returned the child \<open>c\<close>, every later insertion at the node of a pattern that
  excludes the same values returns \<open>c\<close> and leaves the heap as it is, whatever
  was inserted in between.
\<close>

lemma inverse_groups_shared:
  "(IsInverse p \<and> \<not> IsAny p \<and> a < length h \<longrightarrow>
      GetOrInsertChild eps h a p ty =
        (if \<not> isLeaf (h ! a) \<and> (\<forall>i \<in> set (concat (lookups eps (h ! a) p)). i < length (groups (h ! a)))
         then (case firstReusable (groups (h ! a)) (lookups eps (h ! a) p) of
                 Some j \<Rightarrow> Some (h, MatchNode (groups (h ! a) ! j))
               | None \<Rightarrow> Some (h[a := registerGroup eps (h ! a) p (length h)] @ [newMatchNode ty], length h))
         else None))
   \<and> (\<forall>gs ls j. firstReusable gs ls = Some j \<longleftrightarrow>
         j < length gs \<and> count_list (concat ls) j = length ls \<and> MaxRefCount (gs ! j) = length ls
         \<and> (\<forall>i < j. \<not> (count_list (concat ls) i = length ls \<and> MaxRefCount (gs ! i) = length ls)))
   \<and> (\<forall>gs ls. firstReusable gs ls = None \<longleftrightarrow>
         (\<forall>j < length gs. \<not> (count_list (concat ls) j = length ls \<and> MaxRefCount (gs ! j) = length ls)))
   \<and> (IsInverse p \<and> \<not> IsAny p \<and> deduplicated p \<and> exactKind (h ! a)
        \<and> GetOrInsertChild eps h a p ty = Some (h1, c) \<and> later eps h1 h2
        \<and> IsInverse q \<and> \<not> IsAny q \<and> sameExclusions p q
      \<longrightarrow> GetOrInsertChild eps h2 a q ty2 = Some (h2, c))
   \<and> deduplicated (clonePattern eps p0)"
proof -
  have first: "IsInverse p \<and> \<not> IsAny p \<and> a < length h \<longrightarrow>
      GetOrInsertChild eps h a p ty =
        (if \<not> isLeaf (h ! a) \<and> (\<forall>i \<in> set (concat (lookups eps (h ! a) p)). i < length (groups (h ! a)))
         then (case firstReusable (groups (h ! a)) (lookups eps (h ! a) p) of
                 Some j \<Rightarrow> Some (h, MatchNode (groups (h ! a) ! j))
               | None \<Rightarrow> Some (h[a := registerGroup eps (h ! a) p (length h)] @ [newMatchNode ty], length h))
         else None)"
    using GetOrInsertChild_inverse [of p a h eps ty] by blast
  have some: "\<forall>gs ls j. firstReusable gs ls = Some j \<longleftrightarrow>
         j < length gs \<and> count_list (concat ls) j = length ls \<and> MaxRefCount (gs ! j) = length ls
         \<and> (\<forall>i < j. \<not> (count_list (concat ls) i = length ls \<and> MaxRefCount (gs ! i) = length ls))"
    using firstReusable_Some_iff by blast
  have none: "\<forall>gs ls. firstReusable gs ls = None \<longleftrightarrow>
         (\<forall>j < length gs. \<not> (count_list (concat ls) j = length ls \<and> MaxRefCount (gs ! j) = length ls))"
    using firstReusable_None_iff by blast
  have again: "IsInverse p \<and> \<not> IsAny p \<and> deduplicated p \<and> exactKind (h ! a)
        \<and> GetOrInsertChild eps h a p ty = Some (h1, c) \<and> later eps h1 h2
        \<and> IsInverse q \<and> \<not> IsAny q \<and> sameExclusions p q
      \<longrightarrow> GetOrInsertChild eps h2 a q ty2 = Some (h2, c)"
  proof (intro impI, elim conjE)
    assume p: "IsInverse p" "\<not> IsAny p" and d: "deduplicated p" and k: "exactKind (h ! a)"
      and get: "GetOrInsertChild eps h a p ty = Some (h1, c)" and l: "later eps h1 h2"
      and q: "IsInverse q" "\<not> IsAny q" and s: "sameExclusions p q"
    from reuses_established [OF p d k get] have "reuses eps h1 a p c" .
    from reuses_later [OF l this] have "reuses eps h2 a p c" .
    from reuses_same [OF this s] have "reuses eps h2 a q c" .
    from reuses_result [OF this q] show "GetOrInsertChild eps h2 a q ty2 = Some (h2, c)" .
  qed
  from first some none again deduplicated_clonePattern [of eps p0] show ?thesis
    by (intro conjI)
qed

section \<open>What \<^verbatim>\<open>FindChildren\<close> yields\<close>

lemma findChildrenIn_yielded:
  assumes "\<forall>j \<in> set (concat excluding). j < length (inverseChildren n)"
  shows "findChildrenIn n exact excluding
           = Some (yielded exact (inverseChildren n) (set (concat excluding)) (anyChild n))"
proof -
  from findChildrenIn_total [OF assms, of exact] obtain cs where cs: "findChildrenIn n exact excluding = Some cs"
    by auto
  from findChildrenIn_Some [OF cs] cs show ?thesis
    by (simp add: yielded_def)
qed

lemma map_of_find: "map_of m k = map_option snd (find (\<lambda>x. fst x = k) m)"
  by (induction m) auto

lemma mapLookup_lookupIndexes: "concat (mapLookup indexes k) = lookupIndexes (=) indexes k"
  by (simp add: mapLookup_def lookupIndexes_def map_of_find split: option.splits)

lemma excluded_registerIn_eq:
  "set (concat (mapLookup (inverseChildIndexes (registerIn (=) n vs new)) k))
     = set (concat (mapLookup (inverseChildIndexes n) k))
         \<union> (if k \<in> set vs then {length (inverseChildren n)} else {})"
proof -
  have "filter (\<lambda>v. v = k) vs = [] \<longleftrightarrow> k \<notin> set vs"
    by (auto simp: filter_empty_conv)
  then show ?thesis
    by (auto simp: mapLookup_lookupIndexes registerIn_def lookupIndexes_addIndexes [OF equivp_eq])
qed

lemma hit_appendIndex:
  assumes "\<forall>x. equals x v \<longrightarrow> hitBy x = hitBy v"
  shows "{j. \<exists>x \<in> set (appendIndex equals indexes v m). hitBy (fst x) \<and> j \<in> set (snd x)}
           = {j. \<exists>x \<in> set indexes. hitBy (fst x) \<and> j \<in> set (snd x)} \<union> (if hitBy v then {m} else {})"
  using assms by (induction indexes) auto

lemma hit_addIndexes:
  assumes "\<forall>x v. equals x v \<longrightarrow> hitBy x = hitBy v"
  shows "{j. \<exists>x \<in> set (addIndexes equals indexes vs m). hitBy (fst x) \<and> j \<in> set (snd x)}
           = {j. \<exists>x \<in> set indexes. hitBy (fst x) \<and> j \<in> set (snd x)}
               \<union> (if \<exists>v \<in> set vs. hitBy v then {m} else {})"
proof (induction vs arbitrary: indexes)
  case Nil
  then show ?case by simp
next
  case (Cons v vs)
  from assms have "\<forall>x. equals x v \<longrightarrow> hitBy x = hitBy v" by blast
  then have "{j. \<exists>x \<in> set (appendIndex equals indexes v m). hitBy (fst x) \<and> j \<in> set (snd x)}
           = {j. \<exists>x \<in> set indexes. hitBy (fst x) \<and> j \<in> set (snd x)} \<union> (if hitBy v then {m} else {})"
    by (rule hit_appendIndex)
  with Cons.IH [of "appendIndex equals indexes v m"]
  show ?case by auto
qed

lemma IntegerInterval_Equals_Contains:
  "IntegerInterval_Equals x v \<Longrightarrow> IntegerInterval_Contains x k = IntegerInterval_Contains v k"
  by (auto simp: IntegerInterval_Equals_def IntegerInterval_Contains_def split: option.splits if_splits)

lemma excluded_registerIn_interval:
  "{j. \<exists>x \<in> set (inverseChildIndexes (registerIn IntegerInterval_Equals n vs new)).
         IntegerInterval_Contains (fst x) k \<and> j \<in> set (snd x)}
     = {j. \<exists>x \<in> set (inverseChildIndexes n). IntegerInterval_Contains (fst x) k \<and> j \<in> set (snd x)}
         \<union> (if \<exists>v \<in> set vs. IntegerInterval_Contains v k then {length (inverseChildren n)} else {})"
  using hit_addIndexes [of IntegerInterval_Equals "\<lambda>x. IntegerInterval_Contains x k"
      "inverseChildIndexes n" vs "length (inverseChildren n)"]
    IntegerInterval_Equals_Contains
  by (simp add: registerIn_def)

lemma concat_filter_set:
  "set (concat (map snd (filter (\<lambda>x. hitBy (fst x)) indexes)))
     = {j. \<exists>x \<in> set indexes. hitBy (fst x) \<and> j \<in> set (snd x)}"
  by auto

lemma FindChildren_yielded:
  assumes a: "a < length h" and r: "inRange (h ! a)"
  shows "(\<forall>n. h ! a = matchNodeOfString n \<longrightarrow>
            FindChildren eps h a key =
              Some (yielded (mapLookup (children n) (String key)) (inverseChildren n)
                      (set (concat (mapLookup (inverseChildIndexes n) (String key)))) (anyChild n)))
       \<and> (\<forall>n. h ! a = matchNodeOfInteger n \<longrightarrow>
            FindChildren eps h a key =
              Some (yielded (mapLookup (children n) (Integer key)) (inverseChildren n)
                      (set (concat (mapLookup (inverseChildIndexes n) (Integer key)))) (anyChild n)))
       \<and> (\<forall>n. h ! a = matchNodeOfIntegerInterval n \<longrightarrow>
            FindChildren eps h a key =
              Some (yielded (map snd (filter (\<lambda>x. IntegerInterval_Contains (fst x) (Integer key)) (children n)))
                      (inverseChildren n)
                      {j. \<exists>x \<in> set (inverseChildIndexes n).
                            IntegerInterval_Contains (fst x) (Integer key) \<and> j \<in> set (snd x)}
                      (anyChild n)))
       \<and> (\<forall>n. h ! a = matchNodeOfNumberInterval n \<longrightarrow>
            FindChildren eps h a key =
              Some (yielded (map snd (filter (\<lambda>x. NumberInterval_Contains eps (fst x) (Number key)) (children n)))
                      (inverseChildren n)
                      {j. \<exists>x \<in> set (inverseChildIndexes n).
                            NumberInterval_Contains eps (fst x) (Number key) \<and> j \<in> set (snd x)}
                      (anyChild n)))"
proof (intro conjI allI impI)
  fix n
  assume n: "h ! a = matchNodeOfString n"
  let ?ex = "mapLookup (inverseChildIndexes n) (String key)"
  from r n have "\<forall>j \<in> set (concat ?ex). j < length (inverseChildren n)"
    by (fastforce simp: indexesInRange_def dest: mapLookup_set)
  from findChildrenIn_yielded [OF this] a n
  show "FindChildren eps h a key =
          Some (yielded (mapLookup (children n) (String key)) (inverseChildren n) (set (concat ?ex)) (anyChild n))"
    by (simp add: FindChildren_def)
next
  fix n
  assume n: "h ! a = matchNodeOfInteger n"
  let ?ex = "mapLookup (inverseChildIndexes n) (Integer key)"
  from r n have "\<forall>j \<in> set (concat ?ex). j < length (inverseChildren n)"
    by (fastforce simp: indexesInRange_def dest: mapLookup_set)
  from findChildrenIn_yielded [OF this] a n
  show "FindChildren eps h a key =
          Some (yielded (mapLookup (children n) (Integer key)) (inverseChildren n) (set (concat ?ex)) (anyChild n))"
    by (simp add: FindChildren_def)
next
  fix n
  assume n: "h ! a = matchNodeOfIntegerInterval n"
  let ?ex = "map snd (filter (\<lambda>x. IntegerInterval_Contains (fst x) (Integer key)) (inverseChildIndexes n))"
  from r n have "\<forall>j \<in> set (concat ?ex). j < length (inverseChildren n)"
    by (fastforce simp: indexesInRange_def)
  from findChildrenIn_yielded [OF this] a n
    concat_filter_set [of "\<lambda>x. IntegerInterval_Contains x (Integer key)" "inverseChildIndexes n"]
  show "FindChildren eps h a key =
          Some (yielded (map snd (filter (\<lambda>x. IntegerInterval_Contains (fst x) (Integer key)) (children n)))
                  (inverseChildren n)
                  {j. \<exists>x \<in> set (inverseChildIndexes n).
                        IntegerInterval_Contains (fst x) (Integer key) \<and> j \<in> set (snd x)}
                  (anyChild n))"
    by (simp add: FindChildren_def)
next
  fix n
  assume n: "h ! a = matchNodeOfNumberInterval n"
  let ?ex = "map snd (filter (\<lambda>x. NumberInterval_Contains eps (fst x) (Number key)) (inverseChildIndexes n))"
  from r n have "\<forall>j \<in> set (concat ?ex). j < length (inverseChildren n)"
    by (fastforce simp: indexesInRange_def)
  from findChildrenIn_yielded [OF this] a n
    concat_filter_set [of "\<lambda>x. NumberInterval_Contains eps x (Number key)" "inverseChildIndexes n"]
  show "FindChildren eps h a key =
          Some (yielded (map snd (filter (\<lambda>x. NumberInterval_Contains eps (fst x) (Number key)) (children n)))
                  (inverseChildren n)
                  {j. \<exists>x \<in> set (inverseChildIndexes n).
                        NumberInterval_Contains eps (fst x) (Number key) \<and> j \<in> set (snd x)}
                  (anyChild n))"
    by (simp add: FindChildren_def)
qed

lemma reachable_inRange:
  assumes "reachable eps t" and "a < length (heap t)"
  shows "inRange (heap t ! a)"
  using reachable_wellFormed [OF assms(1)] assms(2)
  by (auto simp: wellFormed_def wellFormedHeap_def)

lemma reachable_treeNotAdminRoot: "reachable (0::int) treeNotAdminRoot"
proof -
  have "NewMatchTree [MatchString] = Some emptyString"
    by code_simp
  then have "reachable (0::int) emptyString"
    by (rule reachable.new)
  moreover have "AddRule 0 emptyString ruleNotAdminRoot = Some (None, treeNotAdminRoot)"
    by code_simp
  ultimately show ?thesis
    by (rule reachable.add)
qed

text \<open>
  In every tree a program can hold, \<^verbatim>\<open>FindChildren\<close> on a non-terminal
  node returns for every key, and what it yields is, in this order: the
  children found for the key (for a string or integer node the child stored
  under the key, for an interval node the children of the intervals that
  contain the key), then the child of every inverse group that the reverse
  index does not list under an entry the key hitBy, each such group on its
  own and in the order of the groups, then the wildcard child if there is
  one. The groups the reverse index lists for a key are those whose exclusion
  set holds the key: registering a group for an exclusion set adds the new
  group to the excluded groups of exactly the keys that a value of the set
  equals (string, integer) or contains (integer interval), and changes the
  excluded groups of no key otherwise.
\<close>

lemma FindChildren_closed_form:
  "(reachable eps t \<and> a < length (heap t) \<longrightarrow>
      (\<forall>n. heap t ! a = matchNodeOfString n \<longrightarrow>
         FindChildren eps (heap t) a key =
           Some (yielded (mapLookup (children n) (String key)) (inverseChildren n)
                   (set (concat (mapLookup (inverseChildIndexes n) (String key)))) (anyChild n)))
      \<and> (\<forall>n. heap t ! a = matchNodeOfInteger n \<longrightarrow>
         FindChildren eps (heap t) a key =
           Some (yielded (mapLookup (children n) (Integer key)) (inverseChildren n)
                   (set (concat (mapLookup (inverseChildIndexes n) (Integer key)))) (anyChild n)))
      \<and> (\<forall>n. heap t ! a = matchNodeOfIntegerInterval n \<longrightarrow>
         FindChildren eps (heap t) a key =
           Some (yielded (map snd (filter (\<lambda>x. IntegerInterval_Contains (fst x) (Integer key)) (children n)))
                   (inverseChildren n)
                   {j. \<exists>x \<in> set (inverseChildIndexes n).
                         IntegerInterval_Contains (fst x) (Integer key) \<and> j \<in> set (snd x)}
                   (anyChild n)))
      \<and> (\<forall>n. heap t ! a = matchNodeOfNumberInterval n \<longrightarrow>
         FindChildren eps (heap t) a key =
           Some (yielded (map snd (filter (\<lambda>x. NumberInterval_Contains eps (fst x) (Number key)) (children n)))
                   (inverseChildren n)
                   {j. \<exists>x \<in> set (inverseChildIndexes n).
                         NumberInterval_Contains eps (fst x) (Number key) \<and> j \<in> set (snd x)}
                   (anyChild n))))
   \<and> set (concat (mapLookup (inverseChildIndexes (registerIn (=) m vs new)) k))
       = set (concat (mapLookup (inverseChildIndexes m) k))
           \<union> (if k \<in> set vs then {length (inverseChildren m)} else {})
   \<and> {j. \<exists>x \<in> set (inverseChildIndexes (registerIn IntegerInterval_Equals mi ivs new)).
            IntegerInterval_Contains (fst x) ki \<and> j \<in> set (snd x)}
       = {j. \<exists>x \<in> set (inverseChildIndexes mi). IntegerInterval_Contains (fst x) ki \<and> j \<in> set (snd x)}
           \<union> (if \<exists>v \<in> set ivs. IntegerInterval_Contains v ki then {length (inverseChildren mi)} else {})"
proof -
  have "reachable eps t \<and> a < length (heap t) \<longrightarrow> inRange (heap t ! a)"
    using reachable_inRange [of eps t a] by blast
  with FindChildren_yielded [of a "heap t" eps key]
    excluded_registerIn_eq [of m vs new k] excluded_registerIn_interval [of mi ivs new ki]
  show ?thesis
    by blast
qed

section \<open>Number intervals filed under a recorded interval that equals them up to \<^verbatim>\<open>epsilon\<close>\<close>

text \<open>
  A number interval node looks a pattern's interval up with \<^verbatim>\<open>Equals\<close>, which
  holds of two intervals whose bounds differ by less than \<^verbatim>\<open>epsilon\<close>, and files
  it under the first recorded interval it finds; \<^verbatim>\<open>FindChildren\<close> then decides
  by \<^verbatim>\<open>Contains\<close> of the recorded interval. \<^verbatim>\<open>Equals\<close> is not transitive, and two
  intervals that are equal up to \<^verbatim>\<open>epsilon\<close> do not contain the same numbers.
  The string, integer and integer interval nodes look their values up with an
  equality that is transitive and agrees with \<^verbatim>\<open>Contains\<close>.
\<close>

text \<open>
  Claim C4, at a number interval node. The rule \<open>A\<close> excludes \<open>[0, \<infinity>)\<close>; the
  rules \<open>B\<close> and \<open>C\<close> both exclude \<open>[-6e-11, \<infinity>)\<close> and \<open>[6e-11, \<infinity>)\<close>, a set that the
  cloning of \<^verbatim>\<open>AddRule\<close> leaves as it is. After \<open>A\<close>, \<^verbatim>\<open>GetOrInsertChild\<close> returns
  the new child 2 for the set of \<open>B\<close>; after \<open>A\<close> and \<open>B\<close> it returns for the same
  set not the child 2 but the new child 3: both intervals of the set were
  filed under \<open>[0, \<infinity>)\<close>, whose index list names the group of \<open>B\<close> twice, so the
  count for this group is 4 and not 2. The tree of \<open>A\<close>, \<open>B\<close> and \<open>C\<close> has three
  groups, and \<open>B\<close> and \<open>C\<close> share no node below the root.
\<close>

theorem inverse_group_not_shared:
  "cloneNumberIntervals epsilon (NumberIntervals notAroundZero) = NumberIntervals notAroundZero
   \<and> rootChild epsilon (buildTree epsilon [MatchNumberInterval] [ruleFor [notFromZero] ''A'']) notAroundZero
       = Some 2
   \<and> rootChild epsilon
         (buildTree epsilon [MatchNumberInterval] [ruleFor [notFromZero] ''A'', ruleFor [notAroundZero] ''B''])
         notAroundZero
       = Some 3
   \<and> buildTree epsilon [MatchNumberInterval]
         [ruleFor [notFromZero] ''A'', ruleFor [notAroundZero] ''B'', ruleFor [notAroundZero] ''C'']
       = Some treeNotShared"
  by code_simp

text \<open>
  Claim C5, at a number interval node. The rule \<open>M1\<close> excludes \<open>[0, 10 + 9e-11]\<close>
  and \<open>[100, 200]\<close>, the rule \<open>M2\<close> excludes \<open>[0, 10]\<close>. The pattern of \<open>M2\<close> admits
  the key \<open>10 + 1.5e-10\<close>, which \<open>[0, 10]\<close> does not contain, and the child of the
  group of \<open>M2\<close> is the node 2. \<^verbatim>\<open>FindChildren\<close> at the root yields no child for
  this key: the interval of \<open>M2\<close> was filed under \<open>[0, 10 + 9e-11]\<close>, which
  contains the key. In the tree of \<open>M2\<close> alone the child of its group is
  yielded.
\<close>

theorem FindChildren_omits_admitted_group:
  "admits epsilon notTen aboveTen
   \<and> rootChild epsilon
         (buildTree epsilon [MatchNumberInterval]
            [ruleFor [notTenAndHundreds] ''M1'', ruleFor [notTen] ''M2''])
         notTen
       = Some 2
   \<and> rootChildren epsilon
         (buildTree epsilon [MatchNumberInterval]
            [ruleFor [notTenAndHundreds] ''M1'', ruleFor [notTen] ''M2''])
         aboveTen
       = Some []
   \<and> rootChildren epsilon (buildTree epsilon [MatchNumberInterval] [ruleFor [notTen] ''M2'']) aboveTen
       = Some [1]"
  by code_simp

text \<open>
  Claim C6, at a number interval and a string. The rule \<open>R1\<close> is \<open>[0, 10 + 9e-11]\<close>
  with \<open>a\<close>, the rule \<open>R2\<close> is \<open>[0, 10]\<close> with \<open>b\<close>. Neither rule matches the keys
  \<open>10 + 1.5e-10\<close> and \<open>b\<close>: \<open>R1\<close> wants \<open>a\<close>, and \<open>[0, 10]\<close> does not contain the
  number. \<^verbatim>\<open>Search\<close> returns the value of \<open>R2\<close>: the path of \<open>R2\<close> goes through the
  child that \<open>R1\<close> recorded under \<open>[0, 10 + 9e-11]\<close>, which contains the number.
\<close>

theorem Search_finds_unmatched_rule:
  "\<not> matches epsilon ruleR1 [aboveTen, textKey ''b'']
   \<and> \<not> matches epsilon ruleR2 [aboveTen, textKey ''b'']
   \<and> searchIn epsilon (buildTree epsilon [MatchNumberInterval, MatchString] [ruleR1, ruleR2])
         [aboveTen, textKey ''b'']
       = Some (Inr [''R2''])"
  by code_simp
end
